theory Spec2Isabelle
  imports Main "HOL-Library.Multiset"
begin

section \<open>The indexed d-ary priority queue of internal/priorityQueue/priorityQueue.go\<close>

text \<open>
  The queue is a slice of (priority, value) pairs read as a complete d-ary tree, together
  with a map from each value to its position in the slice. Every method of the Go type
  is a function from the queue state to the new state (and the returned values).

  Modelling decisions.
  \<^item> Priorities are \<open>float32\<close> in the source and are only ever compared with \<open><\<close> and
    \<open>>\<close>. They are modelled by an arbitrary linear order \<open>'p\<close>: the finite floats, without
    NaN (on which every comparison is false).
  \<^item> Positions are \<open>int\<close> in the source and never negative where a slice is indexed; they
    are \<open>nat\<close> here. The two subtractions that can go below zero in the source
    (\<open>len(q.pairs) - 1\<close> in Remove, \<open>len(q.pairs) - 2\<close> in firstLeafIndex) are computed in
    \<open>int\<close>, with Go's truncating division. No product or sum of positions leaves the range
    of a 64-bit integer while the slice fits in memory.
  \<^item> The errors of the package are values of \<open>error\<close>; an index outside the slice, on which
    Go panics, is the value \<open>RuntimePanic\<close> at the two places where a position read from
    the map is used unchecked (Remove and Update).
  \<^item> \<open>sizeD\<close> is set by the constructor only, which clamps it to at least 2.
\<close>

datatype error = ErrElementNotFound | ErrQueueIsEmpty | RuntimePanic

record ('p, 'v) Pair =
  priority :: 'p
  val :: 'v

record ('p, 'v) PriorityQueue =
  pairs :: "('p, 'v) Pair list"
  sizeD :: nat
  indexMap :: "'v \<rightharpoonup> nat"

definition NewPriorityQueue :: "int \<Rightarrow> int \<Rightarrow> ('p, 'v) PriorityQueue" where
  "NewPriorityQueue d capacity =
     (let d = (if d < 2 then 2 else d);
          capacity = (if capacity < 0 then 0 else capacity)
      in \<lparr>pairs = [], sizeD = nat d, indexMap = Map.empty\<rparr>)"

text \<open>Go's integer division truncates toward zero.\<close>

definition go_div :: "int \<Rightarrow> int \<Rightarrow> int" where
  "go_div a b = sgn a * sgn b * (\<bar>a\<bar> div \<bar>b\<bar>)"

definition getParentIndex :: "('p, 'v) PriorityQueue \<Rightarrow> nat \<Rightarrow> nat" where
  "getParentIndex q parentIndex = nat (go_div (int parentIndex - 1) (int (sizeD q)))"

definition firstLeafIndex :: "('p, 'v) PriorityQueue \<Rightarrow> int" where
  "firstLeafIndex q = go_div (int (length (pairs q)) - 2) (int (sizeD q)) + 1"

definition isEmpty :: "('p, 'v) PriorityQueue \<Rightarrow> bool" where
  "isEmpty q = (length (pairs q) = 0)"

definition removeLast ::
  "('p, 'v) PriorityQueue \<Rightarrow> ('p, 'v) Pair \<times> ('p, 'v) PriorityQueue" where
  "removeLast q =
     (let element = pairs q ! (length (pairs q) - 1);
          q1 = q\<lparr>indexMap := (indexMap q)(val element := None)\<rparr>;
          q2 = q1\<lparr>pairs := take (length (pairs q1) - 1) (pairs q1)\<rparr>
      in (element, q2))"

text \<open>The scan of highestPriorityChild: \<open>for i := start + 1; i <= end; i++\<close>.\<close>

function scanChildren ::
  "('p::linorder, 'v) PriorityQueue \<Rightarrow> nat \<Rightarrow> nat \<Rightarrow> ('p, 'v) Pair \<times> nat \<Rightarrow> ('p, 'v) Pair \<times> nat"
where
  "scanChildren q i endIdx (best, bestIdx) =
     (if i \<le> endIdx then
        (if priority (pairs q ! i) > priority best
         then scanChildren q (i + 1) endIdx (pairs q ! i, i)
         else scanChildren q (i + 1) endIdx (best, bestIdx))
      else (best, bestIdx))"
  by pat_completeness auto
termination
  by (relation "measure (\<lambda>(q, i, endIdx, b). Suc endIdx - i)") auto

declare scanChildren.simps [simp del]

text \<open>The result \<open>(Pair{}, -1)\<close> of the source is \<open>None\<close>.\<close>

definition highestPriorityChild ::
  "('p::linorder, 'v) PriorityQueue \<Rightarrow> nat \<Rightarrow> (('p, 'v) Pair \<times> nat) option" where
  "highestPriorityChild q currentIndex =
     (let start = currentIndex * sizeD q + 1 in
      if start \<ge> length (pairs q) then None
      else
        let endIdx = start + sizeD q - 1;
            endIdx = (if endIdx \<ge> length (pairs q) then length (pairs q) - 1 else endIdx)
        in Some (scanChildren q (start + 1) endIdx (pairs q ! start, start)))"

lemma go_div_nonneg: "0 \<le> a \<Longrightarrow> 0 \<le> b \<Longrightarrow> go_div a b = a div b"
  by (cases "a = 0"; cases "b = 0") (simp_all add: go_div_def)

lemma getParentIndex_nat: "getParentIndex q i = (i - 1) div sizeD q"
proof (cases i)
  case 0
  have "go_div (- 1) (int (sizeD q)) \<le> 0"
    by (simp add: go_div_def pos_imp_zdiv_nonneg_iff)
  with 0 show ?thesis by (simp add: getParentIndex_def)
next
  case (Suc k)
  then have "getParentIndex q i = nat (go_div (int k) (int (sizeD q)))"
    by (simp add: getParentIndex_def)
  also have "go_div (int k) (int (sizeD q)) = int k div int (sizeD q)"
    by (rule go_div_nonneg) simp_all
  also have "\<dots> = int (k div sizeD q)"
    by (simp add: zdiv_int)
  finally show ?thesis using Suc by simp
qed

lemma getParentIndex_less: "0 < i \<Longrightarrow> getParentIndex q i < i"
proof -
  assume "0 < i"
  moreover have "(i - 1) div sizeD q \<le> i - 1" by (rule div_le_dividend)
  ultimately show ?thesis unfolding getParentIndex_nat by linarith
qed

text \<open>
  The loop of bubbleUpIndex. \<open>current\<close> is the pair saved before the loop; the loop moves
  parents down into the hole and returns the state and the position of the hole.
\<close>

function bubbleUpLoop ::
  "('p::linorder, 'v) PriorityQueue \<Rightarrow> ('p, 'v) Pair \<Rightarrow> nat \<Rightarrow> ('p, 'v) PriorityQueue \<times> nat"
where
  "bubbleUpLoop q current index =
     (if index > 0 then
        (let parentIndex = getParentIndex q index in
         if priority (pairs q ! parentIndex) < priority current then
           (let q1 = q\<lparr>pairs := (pairs q)[index := pairs q ! parentIndex]\<rparr>;
                q2 = q1\<lparr>indexMap := (indexMap q1)(val (pairs q1 ! index) \<mapsto> index)\<rparr>
            in bubbleUpLoop q2 current parentIndex)
         else (q, index))
      else (q, index))"
  by pat_completeness auto
termination
  by (relation "measure (\<lambda>(q, current, index). index)") (auto simp: getParentIndex_less)

declare bubbleUpLoop.simps [simp del]

definition bubbleUpIndex :: "('p::linorder, 'v) PriorityQueue \<Rightarrow> nat \<Rightarrow> ('p, 'v) PriorityQueue" where
  "bubbleUpIndex q index =
     (let current = pairs q ! index;
          (q1, index1) = bubbleUpLoop q current index;
          q2 = q1\<lparr>pairs := (pairs q1)[index1 := current]\<rparr>
      in q2\<lparr>indexMap := (indexMap q2)(val current \<mapsto> index1)\<rparr>)"

definition bubbleUp :: "('p::linorder, 'v) PriorityQueue \<Rightarrow> ('p, 'v) PriorityQueue" where
  "bubbleUp q = bubbleUpIndex q (length (pairs q) - 1)"

text \<open>The swap of pushDownIndex and the two index assignments that follow it.\<close>

definition swapDown :: "('p, 'v) PriorityQueue \<Rightarrow> nat \<Rightarrow> nat \<Rightarrow> ('p, 'v) PriorityQueue" where
  "swapDown q currentIndex childIndex =
     (let q1 = q\<lparr>pairs := (pairs q)[currentIndex := pairs q ! childIndex,
                                      childIndex := pairs q ! currentIndex]\<rparr>;
          q2 = q1\<lparr>indexMap := (indexMap q1)(val (pairs q1 ! currentIndex) \<mapsto> currentIndex)\<rparr>
      in q2\<lparr>indexMap := (indexMap q2)(val (pairs q2 ! childIndex) \<mapsto> childIndex)\<rparr>)"

lemma scanChildren_range:
  "snd (scanChildren q i e bb) = snd bb \<or>
   (i \<le> snd (scanChildren q i e bb) \<and> snd (scanChildren q i e bb) \<le> e)"
proof (induction q i e bb rule: scanChildren.induct)
  case (1 q i endIdx best bestIdx)
  note unfold = scanChildren.simps [of q i endIdx best bestIdx]
  show ?case
  proof (cases "i \<le> endIdx")
    case False
    then show ?thesis by (simp add: unfold)
  next
    case le: True
    show ?thesis
    proof (cases "priority (pairs q ! i) > priority best")
      case True
      with le have "scanChildren q i endIdx (best, bestIdx) =
          scanChildren q (i + 1) endIdx (pairs q ! i, i)"
        by (simp add: unfold)
      with "1.IH"(1) [OF le True] le show ?thesis by auto
    next
      case False
      with le have "scanChildren q i endIdx (best, bestIdx) =
          scanChildren q (i + 1) endIdx (best, bestIdx)"
        by (simp add: unfold)
      with "1.IH"(2) [OF le False] show ?thesis by auto
    qed
  qed
qed

lemma highestPriorityChild_scan:
  assumes "highestPriorityChild q c = Some (r, ri)"
  shows "c * sizeD q + 1 < length (pairs q) \<and>
         scanChildren q (c * sizeD q + 2)
           (if length (pairs q) \<le> c * sizeD q + sizeD q then length (pairs q) - 1
            else c * sizeD q + sizeD q)
           (pairs q ! (c * sizeD q + 1), c * sizeD q + 1) = (r, ri)"
  using assms by (simp add: highestPriorityChild_def Let_def split: if_splits)

lemma highestPriorityChild_range:
  assumes "highestPriorityChild q c = Some (r, ri)"
  shows "c * sizeD q + 1 \<le> ri \<and> ri < length (pairs q)"
proof -
  let ?s = "c * sizeD q + 1"
  let ?e = "if length (pairs q) \<le> c * sizeD q + sizeD q then length (pairs q) - 1
            else c * sizeD q + sizeD q"
  from highestPriorityChild_scan [OF assms]
  have lt: "?s < length (pairs q)"
    and sc: "scanChildren q (?s + 1) ?e (pairs q ! ?s, ?s) = (r, ri)" by simp_all
  from scanChildren_range [of q "?s + 1" ?e "(pairs q ! ?s, ?s)"] sc lt
  show ?thesis by (auto split: if_splits)
qed

lemma highestPriorityChild_upper:
  assumes "highestPriorityChild q c = Some (r, ri)" and "0 < sizeD q"
  shows "ri \<le> c * sizeD q + sizeD q"
proof -
  let ?s = "c * sizeD q + 1"
  let ?e = "if length (pairs q) \<le> c * sizeD q + sizeD q then length (pairs q) - 1
            else c * sizeD q + sizeD q"
  from highestPriorityChild_scan [OF assms(1)]
  have sc: "scanChildren q (?s + 1) ?e (pairs q ! ?s, ?s) = (r, ri)" by simp
  from scanChildren_range [of q "?s + 1" ?e "(pairs q ! ?s, ?s)"] sc assms(2)
  show ?thesis by (auto split: if_splits)
qed

lemma firstLeafIndex_0: "sizeD q = 0 \<Longrightarrow> firstLeafIndex q = 1"
  by (simp add: firstLeafIndex_def go_div_def)

lemma pushDown_child_greater:
  assumes "int c < firstLeafIndex q" and "highestPriorityChild q c = Some (r, ri)"
  shows "c < ri"
proof (cases "sizeD q = 0")
  case True
  with assms(1) have "c = 0" by (simp add: firstLeafIndex_0)
  with highestPriorityChild_range [OF assms(2)] show ?thesis by simp
next
  case False
  then have "c \<le> c * sizeD q" by simp
  with highestPriorityChild_range [OF assms(2)] show ?thesis by linarith
qed

lemma length_swapDown: "length (pairs (swapDown q c ri)) = length (pairs q)"
  by (simp add: swapDown_def Let_def)

text \<open>The loop of pushDownIndex; the loop variable is \<open>currentIndex\<close>.\<close>

function pushDownIndex :: "('p::linorder, 'v) PriorityQueue \<Rightarrow> nat \<Rightarrow> ('p, 'v) PriorityQueue" where
  "pushDownIndex q currentIndex =
     (if int currentIndex < firstLeafIndex q then
        (case highestPriorityChild q currentIndex of
           None \<Rightarrow> q
         | Some (best, childIndex) \<Rightarrow>
             if priority (pairs q ! childIndex) > priority (pairs q ! currentIndex)
             then pushDownIndex (swapDown q currentIndex childIndex) childIndex
             else q)
      else q)"
  by pat_completeness auto
termination
proof (relation "measure (\<lambda>(q, currentIndex). length (pairs q) - currentIndex)")
  show "wf (measure (\<lambda>(q :: ('p::linorder, 'v) PriorityQueue, currentIndex). length (pairs q) - currentIndex))"
    by simp
next
  fix q :: "('p::linorder, 'v) PriorityQueue" and currentIndex x2 best childIndex
  assume a: "int currentIndex < firstLeafIndex q"
    and b: "highestPriorityChild q currentIndex = Some x2"
    and c: "(best, childIndex) = x2"
  from b c have h: "highestPriorityChild q currentIndex = Some (best, childIndex)" by simp
  from pushDown_child_greater [OF a h] highestPriorityChild_range [OF h]
  show "((swapDown q currentIndex childIndex, childIndex), q, currentIndex)
          \<in> measure (\<lambda>(q, currentIndex). length (pairs q) - currentIndex)"
    by (simp add: length_swapDown) linarith
qed

declare pushDownIndex.simps [simp del]

definition pushDown :: "('p::linorder, 'v) PriorityQueue \<Rightarrow> ('p, 'v) PriorityQueue" where
  "pushDown q = pushDownIndex q 0"

subsection \<open>The public methods\<close>

definition Peek :: "('p, 'v) PriorityQueue \<Rightarrow> error + ('p, 'v) Pair" where
  "Peek q = (if isEmpty q then Inl ErrQueueIsEmpty else Inr (pairs q ! 0))"

definition Top ::
  "('p::linorder, 'v) PriorityQueue \<Rightarrow> (error + ('p, 'v) Pair) \<times> ('p, 'v) PriorityQueue" where
  "Top q =
     (if isEmpty q then (Inl ErrQueueIsEmpty, q)
      else
        (let (p, q1) = removeLast q in
         if isEmpty q1 then (Inr p, q1)
         else
           (let element = pairs q1 ! 0;
                q2 = q1\<lparr>pairs := (pairs q1)[0 := p]\<rparr>;
                q3 = q2\<lparr>indexMap := (indexMap q2)(val p \<mapsto> 0)\<rparr>;
                q4 = pushDown q3;
                q5 = q4\<lparr>indexMap := (indexMap q4)(val element := None)\<rparr>
            in (Inr element, q5))))"

definition Insert :: "('p::linorder, 'v) PriorityQueue \<Rightarrow> 'v \<Rightarrow> 'p \<Rightarrow> ('p, 'v) PriorityQueue" where
  "Insert q element prio =
     (let newPair = \<lparr>priority = prio, val = element\<rparr>;
          q1 = q\<lparr>pairs := pairs q @ [newPair]\<rparr>;
          q2 = q1\<lparr>indexMap := (indexMap q1)(element \<mapsto> length (pairs q1) - 1)\<rparr>
      in bubbleUp q2)"

text \<open>
  Remove and Update return Go's \<open>error\<close>: \<open>None\<close> is \<open>nil\<close>. A position found in the map
  that lies outside the slice makes \<open>q.pairs[index]\<close> panic.
\<close>

definition Remove ::
  "('p::linorder, 'v) PriorityQueue \<Rightarrow> 'v \<Rightarrow> error option \<times> ('p, 'v) PriorityQueue" where
  "Remove q element =
     (case indexMap q element of
        None \<Rightarrow> (Some ErrElementNotFound, q)
      | Some index \<Rightarrow>
          (let lastIndex = int (length (pairs q)) - 1 in
           if int index = lastIndex then
             (let q1 = q\<lparr>pairs := take (nat lastIndex) (pairs q)\<rparr>
              in (None, q1\<lparr>indexMap := (indexMap q1)(element := None)\<rparr>))
           else if length (pairs q) \<le> index then (Some RuntimePanic, q)
           else
             (let removedElement = val (pairs q ! index);
                  removedPriority = priority (pairs q ! index);
                  q1 = q\<lparr>pairs := (pairs q)[index := pairs q ! nat lastIndex]\<rparr>;
                  q2 = q1\<lparr>indexMap := (indexMap q1)(val (pairs q1 ! index) \<mapsto> index)\<rparr>;
                  q3 = q2\<lparr>pairs := take (nat lastIndex) (pairs q2)\<rparr>;
                  q4 = q3\<lparr>indexMap := (indexMap q3)(removedElement := None)\<rparr>;
                  q5 = (if priority (pairs q4 ! index) < removedPriority
                        then bubbleUpIndex q4 index
                        else if priority (pairs q4 ! index) > removedPriority
                        then pushDownIndex q4 index
                        else q4)
              in (None, q5))))"

definition Update ::
  "('p::linorder, 'v) PriorityQueue \<Rightarrow> 'v \<Rightarrow> 'p \<Rightarrow> error option \<times> ('p, 'v) PriorityQueue" where
  "Update q element newPriority =
     (case indexMap q element of
        None \<Rightarrow> (Some ErrElementNotFound, q)
      | Some index \<Rightarrow>
          if length (pairs q) \<le> index then (Some RuntimePanic, q)
          else
            (let oldPriority = priority (pairs q ! index);
                 q1 = q\<lparr>pairs := (pairs q)[index := (pairs q ! index)\<lparr>priority := newPriority\<rparr>]\<rparr>;
                 q2 = (if newPriority < oldPriority then bubbleUpIndex q1 index
                       else if newPriority > oldPriority then pushDownIndex q1 index
                       else q1)
             in (None, q2)))"

section \<open>Both loops as sequences of swaps\<close>

text \<open>
  The last two assignments of bubbleUpIndex put the saved pair into the hole. A state of the
  loop of bubbleUpIndex, with the saved pair put into the hole, is the state before the
  iteration with the hole and its parent swapped; so a property kept by every swap of two
  positions of the slice is kept by both loops.
\<close>

definition placeCurrent ::
  "('p, 'v) PriorityQueue \<Rightarrow> nat \<Rightarrow> ('p, 'v) Pair \<Rightarrow> ('p, 'v) PriorityQueue" where
  "placeCurrent q index current =
     (let q1 = q\<lparr>pairs := (pairs q)[index := current]\<rparr>
      in q1\<lparr>indexMap := (indexMap q1)(val current \<mapsto> index)\<rparr>)"

lemma bubbleUpIndex_placeCurrent:
  "bubbleUpIndex q index =
     placeCurrent (fst (bubbleUpLoop q (pairs q ! index) index))
       (snd (bubbleUpLoop q (pairs q ! index) index)) (pairs q ! index)"
  by (simp add: bubbleUpIndex_def placeCurrent_def Let_def split: prod.splits)

lemma swapDown_sel [simp]:
  "pairs (swapDown q c ch) = (pairs q)[c := pairs q ! ch, ch := pairs q ! c]"
  "sizeD (swapDown q c ch) = sizeD q"
  by (simp_all add: swapDown_def Let_def)

lemma swapDown_indexMap:
  "c < length (pairs q) \<Longrightarrow> ch < length (pairs q) \<Longrightarrow> c \<noteq> ch \<Longrightarrow>
   indexMap (swapDown q c ch) = (indexMap q)(val (pairs q ! ch) \<mapsto> c, val (pairs q ! c) \<mapsto> ch)"
  by (simp add: swapDown_def Let_def)

lemma placeCurrent_sel [simp]:
  "pairs (placeCurrent q h c) = (pairs q)[h := c]"
  "sizeD (placeCurrent q h c) = sizeD q"
  "indexMap (placeCurrent q h c) = (indexMap q)(val c \<mapsto> h)"
  by (simp_all add: placeCurrent_def Let_def)

lemma bubble_step_swap:
  assumes "p < h" and "h < length (pairs q)"
  shows "placeCurrent
           (q\<lparr>pairs := (pairs q)[h := pairs q ! p],
              indexMap := (indexMap q)(val (pairs q ! p) \<mapsto> h)\<rparr>) p c
         = swapDown (placeCurrent q h c) h p"
  using assms
  by (auto simp: placeCurrent_def swapDown_def Let_def list_update_swap fun_eq_iff
           intro!: PriorityQueue.equality)

lemma bubbleUpLoop_lift:
  assumes step: "\<And>Q i j. P Q \<Longrightarrow> i < length (pairs Q) \<Longrightarrow> j < length (pairs Q) \<Longrightarrow> i \<noteq> j
                   \<Longrightarrow> P (swapDown Q i j)"
  shows "P (placeCurrent q h c) \<Longrightarrow> h < length (pairs q) \<Longrightarrow>
         P (placeCurrent (fst (bubbleUpLoop q c h)) (snd (bubbleUpLoop q c h)) c) \<and>
         snd (bubbleUpLoop q c h) < length (pairs (fst (bubbleUpLoop q c h))) \<and>
         snd (bubbleUpLoop q c h) \<le> h \<and>
         length (pairs (fst (bubbleUpLoop q c h))) = length (pairs q)"
proof (induction q c h rule: bubbleUpLoop.induct)
  case (1 q current index)
  note unfold = bubbleUpLoop.simps [of q current index]
  let ?p = "getParentIndex q index"
  show ?case
  proof (cases "index > 0 \<and> priority (pairs q ! ?p) < priority current")
    case False
    then have "bubbleUpLoop q current index = (q, index)"
      by (auto simp: unfold Let_def)
    with "1.prems" show ?thesis by simp
  next
    case True
    let ?q2 = "q\<lparr>pairs := (pairs q)[index := pairs q ! ?p],
                  indexMap := (indexMap q)(val (pairs q ! ?p) \<mapsto> index)\<rparr>"
    from True have lt: "?p < index" by (simp add: getParentIndex_less)
    from True "1.prems"(2) have eq: "bubbleUpLoop q current index = bubbleUpLoop ?q2 current ?p"
      by (simp add: unfold Let_def)
    have "placeCurrent ?q2 ?p current = swapDown (placeCurrent q index current) index ?p"
      using lt "1.prems"(2) by (rule bubble_step_swap)
    moreover have "P (swapDown (placeCurrent q index current) index ?p)"
      using "1.prems" lt by (intro step) simp_all
    ultimately have P2: "P (placeCurrent ?q2 ?p current)" by simp
    have len2: "?p < length (pairs ?q2)" using lt "1.prems"(2) by simp
    from True have c1: "0 < index" and c2: "priority (pairs q ! ?p) < priority current" by simp_all
    have "P (placeCurrent (fst (bubbleUpLoop ?q2 current ?p)) (snd (bubbleUpLoop ?q2 current ?p)) current) \<and>
         snd (bubbleUpLoop ?q2 current ?p) < length (pairs (fst (bubbleUpLoop ?q2 current ?p))) \<and>
         snd (bubbleUpLoop ?q2 current ?p) \<le> ?p \<and>
         length (pairs (fst (bubbleUpLoop ?q2 current ?p))) = length (pairs ?q2)"
      using "1.IH" [OF c1 refl c2 refl refl] P2 len2 "1.prems"(2) by (simp add: Let_def)
    with eq lt show ?thesis by simp
  qed
qed

text \<open>The same for the loop of pushDownIndex, whose iterations are swaps as written.\<close>

lemma pushDownIndex_lift:
  assumes step: "\<And>Q i j. P Q \<Longrightarrow> i < length (pairs Q) \<Longrightarrow> j < length (pairs Q) \<Longrightarrow> i \<noteq> j
                   \<Longrightarrow> P (swapDown Q i j)"
  shows "P q \<Longrightarrow> P (pushDownIndex q i)"
proof (induction q i rule: pushDownIndex.induct)
  case (1 q currentIndex)
  note unfold = pushDownIndex.simps [of q currentIndex]
  show ?case
  proof (cases "int currentIndex < firstLeafIndex q")
    case False
    with "1.prems" show ?thesis by (simp add: unfold)
  next
    case guard: True
    show ?thesis
    proof (cases "highestPriorityChild q currentIndex")
      case None
      with guard "1.prems" show ?thesis by (simp add: unfold)
    next
      case (Some bc)
      obtain best childIndex where bc: "bc = (best, childIndex)" by (cases bc)
      with Some have h: "highestPriorityChild q currentIndex = Some (best, childIndex)" by simp
      from pushDown_child_greater [OF guard h] highestPriorityChild_range [OF h]
      have rng: "currentIndex < childIndex" "childIndex < length (pairs q)" by simp_all
      show ?thesis
      proof (cases "priority (pairs q ! childIndex) > priority (pairs q ! currentIndex)")
        case False
        with guard h "1.prems" show ?thesis by (simp add: unfold)
      next
        case True
        with guard h have eq: "pushDownIndex q currentIndex =
            pushDownIndex (swapDown q currentIndex childIndex) childIndex"
          by (simp add: unfold)
        have "P (swapDown q currentIndex childIndex)"
          using "1.prems" rng by (intro step) simp_all
        from "1.IH" [OF guard h refl True this] eq show ?thesis by simp
      qed
    qed
  qed
qed

lemma bubbleUpIndex_lift:
  assumes step: "\<And>Q i j. P Q \<Longrightarrow> i < length (pairs Q) \<Longrightarrow> j < length (pairs Q) \<Longrightarrow> i \<noteq> j
                   \<Longrightarrow> P (swapDown Q i j)"
    and "P (placeCurrent q i (pairs q ! i))" and "i < length (pairs q)"
  shows "P (bubbleUpIndex q i)"
  using bubbleUpLoop_lift [of P q i "pairs q ! i", OF step assms(2,3)]
  by (simp add: bubbleUpIndex_placeCurrent)

lemma length_pushDownIndex: "length (pairs (pushDownIndex q i)) = length (pairs q)"
  by (rule pushDownIndex_lift [of "\<lambda>Q. length (pairs Q) = length (pairs q)"]) simp_all

lemma sizeD_pushDownIndex: "sizeD (pushDownIndex q i) = sizeD q"
  by (rule pushDownIndex_lift [of "\<lambda>Q. sizeD Q = sizeD q"]) simp_all

lemma mset_pushDownIndex: "mset (pairs (pushDownIndex q i)) = mset (pairs q)"
  by (rule pushDownIndex_lift [of "\<lambda>Q. mset (pairs Q) = mset (pairs q)"])
     (simp_all add: mset_swap)

lemma length_bubbleUpIndex:
  "i < length (pairs q) \<Longrightarrow> length (pairs (bubbleUpIndex q i)) = length (pairs q)"
  by (rule bubbleUpIndex_lift [of "\<lambda>Q. length (pairs Q) = length (pairs q)"]) simp_all

lemma sizeD_bubbleUpIndex:
  "i < length (pairs q) \<Longrightarrow> sizeD (bubbleUpIndex q i) = sizeD q"
  by (rule bubbleUpIndex_lift [of "\<lambda>Q. sizeD Q = sizeD q"]) simp_all

lemma mset_bubbleUpIndex:
  "i < length (pairs q) \<Longrightarrow> mset (pairs (bubbleUpIndex q i)) = mset (pairs q)"
  by (rule bubbleUpIndex_lift [of "\<lambda>Q. mset (pairs Q) = mset (pairs q)"])
     (simp_all add: mset_swap)

section \<open>Consistency of the index with the slice\<close>

text \<open>
  \<open>idx_sound_except E q\<close>: every entry of the index whose key is not in \<open>E\<close> points to a
  position of the slice that holds that key. \<open>idx_inv E q\<close> adds that every position of the
  slice is the entry of its value in the index, and that no stored value is in \<open>E\<close>. The set
  \<open>E\<close> is needed for Top only, which leaves the entry of the extracted value in the index
  while it pushes the new root down. \<open>index_ok\<close> is the invariant as the specification
  words it.
\<close>

definition idx_sound_except :: "'v set \<Rightarrow> ('p, 'v) PriorityQueue \<Rightarrow> bool" where
  "idx_sound_except E q =
     (\<forall>v i. v \<notin> E \<longrightarrow> indexMap q v = Some i \<longrightarrow> i < length (pairs q) \<and> val (pairs q ! i) = v)"

definition idx_complete :: "('p, 'v) PriorityQueue \<Rightarrow> bool" where
  "idx_complete q = (\<forall>i < length (pairs q). indexMap q (val (pairs q ! i)) = Some i)"

definition idx_inv :: "'v set \<Rightarrow> ('p, 'v) PriorityQueue \<Rightarrow> bool" where
  "idx_inv E q = (idx_complete q \<and> idx_sound_except E q \<and> (\<forall>p \<in> set (pairs q). val p \<notin> E))"

definition index_ok :: "('p, 'v) PriorityQueue \<Rightarrow> bool" where
  "index_ok q =
     ((\<forall>i < length (pairs q). indexMap q (val (pairs q ! i)) = Some i) \<and>
      dom (indexMap q) = val ` set (pairs q))"

lemma index_ok_iff: "index_ok q \<longleftrightarrow> idx_inv {} q"
proof
  assume ok: "index_ok q"
  have "idx_sound_except {} q"
    unfolding idx_sound_except_def
  proof (intro allI impI)
    fix v i assume "v \<notin> {}" and vi: "indexMap q v = Some i"
    then have "v \<in> dom (indexMap q)" by auto
    with ok have "v \<in> val ` set (pairs q)" by (simp add: index_ok_def)
    then obtain j where j: "j < length (pairs q)" "val (pairs q ! j) = v"
      by (auto simp: in_set_conv_nth)
    with ok have "indexMap q v = Some j" by (auto simp: index_ok_def)
    with vi j show "i < length (pairs q) \<and> val (pairs q ! i) = v" by simp
  qed
  with ok show "idx_inv {} q" by (simp add: idx_inv_def idx_complete_def index_ok_def)
next
  assume inv: "idx_inv {} q"
  then have c: "idx_complete q" and s: "idx_sound_except {} q" by (simp_all add: idx_inv_def)
  have "dom (indexMap q) = val ` set (pairs q)"
  proof (intro set_eqI iffI)
    fix v assume "v \<in> dom (indexMap q)"
    then obtain i where "indexMap q v = Some i" by auto
    with s have "i < length (pairs q)" "val (pairs q ! i) = v"
      by (auto simp: idx_sound_except_def)
    then show "v \<in> val ` set (pairs q)" using nth_mem [of i "pairs q"] by blast
  next
    fix v assume "v \<in> val ` set (pairs q)"
    then obtain j where "j < length (pairs q)" "val (pairs q ! j) = v"
      by (auto simp: in_set_conv_nth)
    with c show "v \<in> dom (indexMap q)" by (auto simp: idx_complete_def)
  qed
  with c show "index_ok q" by (simp add: index_ok_def idx_complete_def)
qed

lemma idx_complete_inj:
  "idx_complete q \<Longrightarrow> i < length (pairs q) \<Longrightarrow> j < length (pairs q) \<Longrightarrow>
   val (pairs q ! i) = val (pairs q ! j) \<Longrightarrow> i = j"
  by (metis idx_complete_def option.inject)

lemma idx_sound_swapDown:
  assumes "idx_sound_except E q" "i < length (pairs q)" "j < length (pairs q)" "i \<noteq> j"
  shows "idx_sound_except E (swapDown q i j)"
  unfolding idx_sound_except_def
proof (intro allI impI)
  fix v k assume vE: "v \<notin> E" and vk: "indexMap (swapDown q i j) v = Some k"
  let ?ps = "pairs q"
  from vk assms have m: "((indexMap q)(val (?ps ! j) \<mapsto> i, val (?ps ! i) \<mapsto> j)) v = Some k"
    by (simp add: swapDown_indexMap)
  show "k < length (pairs (swapDown q i j)) \<and> val (pairs (swapDown q i j) ! k) = v"
  proof (cases "v = val (?ps ! i)")
    case True
    with m have "k = j" by simp
    with True assms show ?thesis by simp
  next
    case ni: False
    show ?thesis
    proof (cases "v = val (?ps ! j)")
      case True
      with m ni have "k = i" by simp
      with True assms show ?thesis by simp
    next
      case False
      with m ni have "indexMap q v = Some k" by simp
      with assms(1) vE have k: "k < length ?ps" "val (?ps ! k) = v"
        by (auto simp: idx_sound_except_def)
      with ni False have "k \<noteq> i" "k \<noteq> j" by auto
      with k show ?thesis by simp
    qed
  qed
qed

lemma idx_complete_swapDown:
  assumes "idx_complete q" "i < length (pairs q)" "j < length (pairs q)" "i \<noteq> j"
  shows "idx_complete (swapDown q i j)"
  unfolding idx_complete_def
proof (intro allI impI)
  fix k assume "k < length (pairs (swapDown q i j))"
  then have k: "k < length (pairs q)" by simp
  let ?ps = "pairs q"
  have ne: "val (?ps ! i) \<noteq> val (?ps ! j)"
    using idx_complete_inj [OF assms(1-3)] assms(4) by auto
  have im: "indexMap (swapDown q i j) = (indexMap q)(val (?ps ! j) \<mapsto> i, val (?ps ! i) \<mapsto> j)"
    using assms by (simp add: swapDown_indexMap)
  show "indexMap (swapDown q i j) (val (pairs (swapDown q i j) ! k)) = Some k"
  proof (cases "k = i")
    case True
    with assms ne show ?thesis by (simp add: im)
  next
    case ki: False
    show ?thesis
    proof (cases "k = j")
      case True
      with assms show ?thesis by (simp add: im)
    next
      case False
      with ki k idx_complete_inj [OF assms(1) k assms(2)] idx_complete_inj [OF assms(1) k assms(3)]
      have "val (?ps ! k) \<noteq> val (?ps ! i)" "val (?ps ! k) \<noteq> val (?ps ! j)" by auto
      with ki False k assms(1) show ?thesis by (simp add: im idx_complete_def)
    qed
  qed
qed

lemma idx_inv_swapDown:
  assumes "idx_inv E q" "i < length (pairs q)" "j < length (pairs q)" "i \<noteq> j"
  shows "idx_inv E (swapDown q i j)"
proof -
  have "set (pairs (swapDown q i j)) = set (pairs q)"
    using assms(2,3) by (simp add: set_swap)
  with assms show ?thesis
    by (simp add: idx_inv_def idx_sound_swapDown idx_complete_swapDown)
qed

lemma idx_sound_placeCurrent:
  assumes "idx_sound_except E q" "i < length (pairs q)"
  shows "idx_sound_except E (placeCurrent q i (pairs q ! i))"
  using assms by (auto simp: idx_sound_except_def)

lemma placeCurrent_id:
  assumes "i < length (pairs q)" "indexMap q (val (pairs q ! i)) = Some i"
  shows "placeCurrent q i (pairs q ! i) = q"
  using assms by (simp add: placeCurrent_def Let_def map_upd_triv)

lemma idx_sound_pushDownIndex:
  "idx_sound_except E q \<Longrightarrow> idx_sound_except E (pushDownIndex q i)"
  by (rule pushDownIndex_lift [of "idx_sound_except E"]) (simp_all add: idx_sound_swapDown)

lemma idx_inv_pushDownIndex: "idx_inv E q \<Longrightarrow> idx_inv E (pushDownIndex q i)"
  by (rule pushDownIndex_lift [of "idx_inv E"]) (simp_all add: idx_inv_swapDown)

lemma idx_sound_bubbleUpIndex:
  "idx_sound_except E q \<Longrightarrow> i < length (pairs q) \<Longrightarrow> idx_sound_except E (bubbleUpIndex q i)"
  by (rule bubbleUpIndex_lift [of "idx_sound_except E"])
     (simp_all add: idx_sound_swapDown idx_sound_placeCurrent)

lemma idx_inv_bubbleUpIndex:
  assumes "idx_inv E q" "i < length (pairs q)"
  shows "idx_inv E (bubbleUpIndex q i)"
proof -
  from assms have "indexMap q (val (pairs q ! i)) = Some i"
    by (simp add: idx_inv_def idx_complete_def)
  with assms(2) have "placeCurrent q i (pairs q ! i) = q" by (rule placeCurrent_id)
  with assms show ?thesis
    by (intro bubbleUpIndex_lift [of "idx_inv E"]) (simp_all add: idx_inv_swapDown)
qed

subsection \<open>Insert\<close>

lemma Insert_unfold:
  "Insert q v p =
     bubbleUpIndex (q\<lparr>pairs := pairs q @ [\<lparr>priority = p, val = v\<rparr>],
                      indexMap := (indexMap q)(v \<mapsto> length (pairs q))\<rparr>) (length (pairs q))"
  by (simp add: Insert_def bubbleUp_def Let_def)

lemma idx_sound_Insert:
  assumes "idx_sound_except {} q"
  shows "idx_sound_except {} (Insert q v p)"
proof -
  let ?q2 = "q\<lparr>pairs := pairs q @ [\<lparr>priority = p, val = v\<rparr>],
               indexMap := (indexMap q)(v \<mapsto> length (pairs q))\<rparr>"
  from assms have "idx_sound_except {} ?q2"
    by (auto simp: idx_sound_except_def nth_append less_Suc_eq)
  then show ?thesis
    unfolding Insert_unfold by (rule idx_sound_bubbleUpIndex) simp
qed

lemma idx_inv_Insert:
  assumes "idx_inv {} q" "indexMap q v = None"
  shows "idx_inv {} (Insert q v p)"
proof -
  let ?q2 = "q\<lparr>pairs := pairs q @ [\<lparr>priority = p, val = v\<rparr>],
               indexMap := (indexMap q)(v \<mapsto> length (pairs q))\<rparr>"
  from assms have s: "idx_sound_except {} ?q2"
    by (auto simp: idx_inv_def idx_sound_except_def nth_append less_Suc_eq)
  from assms have "idx_complete ?q2"
    by (auto simp: idx_inv_def idx_complete_def nth_append less_Suc_eq)
  with s have "idx_inv {} ?q2" by (simp add: idx_inv_def)
  then show ?thesis
    unfolding Insert_unfold by (rule idx_inv_bubbleUpIndex) simp
qed

subsection \<open>Update\<close>

definition setPriority :: "('p, 'v) PriorityQueue \<Rightarrow> nat \<Rightarrow> 'p \<Rightarrow> ('p, 'v) PriorityQueue" where
  "setPriority q i p = q\<lparr>pairs := (pairs q)[i := (pairs q ! i)\<lparr>priority := p\<rparr>]\<rparr>"

lemma Update_unfold:
  assumes "indexMap q v = Some i" "i < length (pairs q)"
  shows "Update q v p =
     (None, if p < priority (pairs q ! i) then bubbleUpIndex (setPriority q i p) i
            else if p > priority (pairs q ! i) then pushDownIndex (setPriority q i p) i
            else setPriority q i p)"
  using assms by (simp add: Update_def setPriority_def Let_def)

lemma setPriority_sel [simp]:
  "pairs (setPriority q i p) = (pairs q)[i := (pairs q ! i)\<lparr>priority := p\<rparr>]"
  "sizeD (setPriority q i p) = sizeD q"
  "indexMap (setPriority q i p) = indexMap q"
  by (simp_all add: setPriority_def)

lemma val_update_priority:
  "k < length ps \<Longrightarrow> val (ps[i := (ps ! i)\<lparr>priority := p\<rparr>] ! k) = val (ps ! k)"
  by (cases "k = i") simp_all

lemma idx_sound_setPriority:
  "idx_sound_except E q \<Longrightarrow> idx_sound_except E (setPriority q i p)"
  by (simp add: idx_sound_except_def val_update_priority)

lemma idx_inv_setPriority:
  assumes "idx_inv E q"
  shows "idx_inv E (setPriority q i p)"
proof -
  from assms have "idx_complete (setPriority q i p)"
    by (simp add: idx_inv_def idx_complete_def val_update_priority)
  moreover have "\<forall>x \<in> set (pairs (setPriority q i p)). val x \<notin> E"
  proof
    fix x assume "x \<in> set (pairs (setPriority q i p))"
    then obtain k where k: "k < length (pairs q)" "x = pairs (setPriority q i p) ! k"
      by (auto simp: in_set_conv_nth)
    then have "val x = val (pairs q ! k)" by (simp add: val_update_priority)
    with k(1) assms show "val x \<notin> E" by (auto simp: idx_inv_def)
  qed
  ultimately show ?thesis using assms by (simp add: idx_inv_def idx_sound_setPriority)
qed

lemma Update_cases:
  assumes "indexMap q v = Some i" "i < length (pairs q)"
  shows "snd (Update q v p) = bubbleUpIndex (setPriority q i p) i \<or>
         snd (Update q v p) = pushDownIndex (setPriority q i p) i \<or>
         snd (Update q v p) = setPriority q i p"
  by (simp add: Update_unfold [OF assms])

lemma idx_sound_Update:
  assumes "idx_sound_except {} q"
  shows "idx_sound_except {} (snd (Update q v p))"
proof (cases "indexMap q v")
  case None
  with assms show ?thesis by (simp add: Update_def)
next
  case (Some i)
  with assms have i: "i < length (pairs q)" by (auto simp: idx_sound_except_def)
  from assms have "idx_sound_except {} (setPriority q i p)" by (rule idx_sound_setPriority)
  with i Update_cases [OF Some i, of p] show ?thesis
    by (auto simp: idx_sound_bubbleUpIndex idx_sound_pushDownIndex)
qed

lemma idx_inv_Update:
  assumes "idx_inv {} q"
  shows "idx_inv {} (snd (Update q v p))"
proof (cases "indexMap q v")
  case None
  with assms show ?thesis by (simp add: Update_def)
next
  case (Some i)
  with assms have i: "i < length (pairs q)" by (auto simp: idx_inv_def idx_sound_except_def)
  from assms have "idx_inv {} (setPriority q i p)" by (rule idx_inv_setPriority)
  with i Update_cases [OF Some i, of p] show ?thesis
    by (auto simp: idx_inv_bubbleUpIndex idx_inv_pushDownIndex)
qed

subsection \<open>Remove\<close>

text \<open>
  \<open>moveLast q i\<close> is the state of Remove before it restores the order: the last pair
  has been written over position \<open>i\<close>, its index entry set, the slice cut by one and the
  entry of the removed value deleted.
\<close>

definition moveLast :: "('p, 'v) PriorityQueue \<Rightarrow> nat \<Rightarrow> ('p, 'v) PriorityQueue" where
  "moveLast q i =
     q\<lparr>pairs := take (length (pairs q) - 1) ((pairs q)[i := pairs q ! (length (pairs q) - 1)]),
       indexMap := ((indexMap q)(val (pairs q ! (length (pairs q) - 1)) \<mapsto> i))
                     (val (pairs q ! i) := None)\<rparr>"

lemma Remove_absent: "indexMap q v = None \<Longrightarrow> Remove q v = (Some ErrElementNotFound, q)"
  by (simp add: Remove_def)

lemma Remove_last:
  assumes "indexMap q v = Some i" "Suc i = length (pairs q)"
  shows "Remove q v = (None, q\<lparr>pairs := take i (pairs q), indexMap := (indexMap q)(v := None)\<rparr>)"
proof -
  from assms(2) have "int i = int (length (pairs q)) - 1" by simp
  moreover from assms(2) have "nat (int (length (pairs q)) - 1) = i" by simp
  ultimately show ?thesis using assms(1) by (simp add: Remove_def Let_def)
qed

lemma Remove_inner:
  assumes "indexMap q v = Some i" "Suc i < length (pairs q)"
  shows "Remove q v =
     (None, if priority (pairs q ! (length (pairs q) - 1)) < priority (pairs q ! i)
            then bubbleUpIndex (moveLast q i) i
            else if priority (pairs q ! (length (pairs q) - 1)) > priority (pairs q ! i)
            then pushDownIndex (moveLast q i) i
            else moveLast q i)"
proof -
  from assms(2) have ne: "int i \<noteq> int (length (pairs q)) - 1" by simp
  from assms(2) have n: "nat (int (length (pairs q)) - 1) = length (pairs q) - 1" by simp
  from assms(2) have lt: "i < length (pairs q) - 1" "i < length (pairs q)" by simp_all
  show ?thesis
    using assms(1) ne lt
    by (simp add: Remove_def Let_def n moveLast_def)
qed

lemma Remove_panic:
  assumes "indexMap q v = Some i" "length (pairs q) \<le> i"
  shows "Remove q v = (Some RuntimePanic, q)"
proof -
  from assms(2) have "int i \<noteq> int (length (pairs q)) - 1" by simp
  with assms show ?thesis by (simp add: Remove_def Let_def)
qed

lemma moveLast_sel [simp]:
  "sizeD (moveLast q i) = sizeD q"
  "length (pairs (moveLast q i)) = length (pairs q) - 1"
  by (simp_all add: moveLast_def)

lemma moveLast_nth:
  "k < length (pairs q) - 1 \<Longrightarrow>
   pairs (moveLast q i) ! k = (if k = i then pairs q ! (length (pairs q) - 1) else pairs q ! k)"
  by (simp add: moveLast_def)

lemma idx_sound_moveLast:
  assumes s: "idx_sound_except {} q" and i: "Suc i < length (pairs q)"
    and v: "indexMap q v = Some i"
  shows "idx_sound_except {} (moveLast q i)"
  unfolding idx_sound_except_def
proof (intro allI impI)
  let ?n = "length (pairs q) - 1"
  fix w k assume wk: "indexMap (moveLast q i) w = Some k"
  from s v have vi: "val (pairs q ! i) = v" by (auto simp: idx_sound_except_def)
  from wk have wv: "w \<noteq> v" by (auto simp: moveLast_def vi)
  show "k < length (pairs (moveLast q i)) \<and> val (pairs (moveLast q i) ! k) = w"
  proof (cases "w = val (pairs q ! ?n)")
    case True
    with wk wv have "k = i" by (simp add: moveLast_def vi)
    with True i show ?thesis by (simp add: moveLast_nth)
  next
    case False
    with wk wv have "indexMap q w = Some k" by (simp add: moveLast_def vi)
    with s have k: "k < length (pairs q)" "val (pairs q ! k) = w" by (auto simp: idx_sound_except_def)
    with False wv vi have "k \<noteq> ?n" "k \<noteq> i" by auto
    with k show ?thesis by (simp add: moveLast_nth)
  qed
qed

lemma idx_complete_moveLast:
  assumes c: "idx_complete q" and i: "Suc i < length (pairs q)"
  shows "idx_complete (moveLast q i)"
  unfolding idx_complete_def
proof (intro allI impI)
  let ?n = "length (pairs q) - 1"
  fix k assume "k < length (pairs (moveLast q i))"
  then have k: "k < ?n" by simp
  from i have n: "?n < length (pairs q)" "i < length (pairs q)" "i \<noteq> ?n" by simp_all
  have ne: "val (pairs q ! ?n) \<noteq> val (pairs q ! i)"
    using idx_complete_inj [OF c n(1,2)] n(3) by auto
  show "indexMap (moveLast q i) (val (pairs (moveLast q i) ! k)) = Some k"
  proof (cases "k = i")
    case True
    with k ne show ?thesis by (simp add: moveLast_nth) (simp add: moveLast_def)
  next
    case False
    from k have kl: "k < length (pairs q)" "k \<noteq> ?n" by simp_all
    from idx_complete_inj [OF c kl(1) n(1)] kl(2)
    have a: "val (pairs q ! k) \<noteq> val (pairs q ! ?n)" by auto
    from idx_complete_inj [OF c kl(1) n(2)] False
    have b: "val (pairs q ! k) \<noteq> val (pairs q ! i)" by auto
    from c kl(1) have "indexMap q (val (pairs q ! k)) = Some k" by (simp add: idx_complete_def)
    with False k a b show ?thesis by (simp add: moveLast_nth) (simp add: moveLast_def)
  qed
qed

lemma Remove_inner_cases:
  assumes "indexMap q v = Some i" "Suc i < length (pairs q)"
  shows "snd (Remove q v) = bubbleUpIndex (moveLast q i) i \<or>
         snd (Remove q v) = pushDownIndex (moveLast q i) i \<or>
         snd (Remove q v) = moveLast q i"
  by (simp add: Remove_inner [OF assms])

lemma idx_sound_Remove:
  assumes s: "idx_sound_except {} q"
  shows "idx_sound_except {} (snd (Remove q v))"
proof (cases "indexMap q v")
  case None
  with s show ?thesis by (simp add: Remove_absent)
next
  case (Some i)
  with s have i: "i < length (pairs q)" and vi: "val (pairs q ! i) = v"
    by (auto simp: idx_sound_except_def)
  show ?thesis
  proof (cases "Suc i = length (pairs q)")
    case True
    have "idx_sound_except {} (q\<lparr>pairs := take i (pairs q), indexMap := (indexMap q)(v := None)\<rparr>)"
      unfolding idx_sound_except_def
    proof (intro allI impI)
      fix w k
      assume "indexMap (q\<lparr>pairs := take i (pairs q), indexMap := (indexMap q)(v := None)\<rparr>) w = Some k"
      then have wv: "w \<noteq> v" and "indexMap q w = Some k" by (auto split: if_splits)
      with s have k: "k < length (pairs q)" "val (pairs q ! k) = w"
        by (auto simp: idx_sound_except_def)
      with wv vi have "k \<noteq> i" by auto
      with k True have "k < i" by simp
      with k i show "k < length (pairs (q\<lparr>pairs := take i (pairs q), indexMap := (indexMap q)(v := None)\<rparr>))
          \<and> val (pairs (q\<lparr>pairs := take i (pairs q), indexMap := (indexMap q)(v := None)\<rparr>) ! k) = w"
        by simp
    qed
    then show ?thesis by (simp add: Remove_last [OF Some True])
  next
    case False
    with i have lt: "Suc i < length (pairs q)" by simp
    then have il: "i < length (pairs (moveLast q i))" by simp
    from idx_sound_moveLast [OF s lt Some] have m: "idx_sound_except {} (moveLast q i)" .
    from Remove_inner_cases [OF Some lt] m il show ?thesis
      by (auto simp: idx_sound_bubbleUpIndex idx_sound_pushDownIndex)
  qed
qed

lemma idx_inv_Remove:
  assumes inv: "idx_inv {} q"
  shows "idx_inv {} (snd (Remove q v))"
proof (cases "indexMap q v")
  case None
  with inv show ?thesis by (simp add: Remove_absent)
next
  case (Some i)
  from inv have s: "idx_sound_except {} q" and c: "idx_complete q" by (simp_all add: idx_inv_def)
  from Some s have i: "i < length (pairs q)" and vi: "val (pairs q ! i) = v"
    by (auto simp: idx_sound_except_def)
  show ?thesis
  proof (cases "Suc i = length (pairs q)")
    case True
    let ?q' = "q\<lparr>pairs := take i (pairs q), indexMap := (indexMap q)(v := None)\<rparr>"
    have "idx_complete ?q'"
      unfolding idx_complete_def
    proof (intro allI impI)
      fix k assume "k < length (pairs ?q')"
      with True have k: "k < i" "k < length (pairs q)" by simp_all
      with idx_complete_inj [OF c k(2) i] vi have "val (pairs q ! k) \<noteq> v" by auto
      moreover from c k have "indexMap q (val (pairs q ! k)) = Some k" by (simp add: idx_complete_def)
      ultimately show "indexMap ?q' (val (pairs ?q' ! k)) = Some k" using k by simp
    qed
    moreover from idx_sound_Remove [OF s, of v] have "idx_sound_except {} ?q'"
      by (simp add: Remove_last [OF Some True])
    ultimately show ?thesis by (simp add: Remove_last [OF Some True] idx_inv_def)
  next
    case False
    with i have lt: "Suc i < length (pairs q)" by simp
    then have il: "i < length (pairs (moveLast q i))" by simp
    from idx_sound_moveLast [OF s lt Some] idx_complete_moveLast [OF c lt]
    have m: "idx_inv {} (moveLast q i)" by (simp add: idx_inv_def)
    from Remove_inner_cases [OF Some lt] m il show ?thesis
      by (auto simp: idx_inv_bubbleUpIndex idx_inv_pushDownIndex)
  qed
qed

subsection \<open>Top\<close>

text \<open>
  \<open>rootLast q\<close> is the state of Top before pushDown: the last pair has been detached and
  written over the root, and its index entry set to 0. The entry of the old root is still
  in the index.
\<close>

definition rootLast :: "('p, 'v) PriorityQueue \<Rightarrow> ('p, 'v) PriorityQueue" where
  "rootLast q =
     q\<lparr>pairs := (take (length (pairs q) - 1) (pairs q))[0 := pairs q ! (length (pairs q) - 1)],
       indexMap := (indexMap q)(val (pairs q ! (length (pairs q) - 1)) \<mapsto> 0)\<rparr>"

lemma Top_empty: "pairs q = [] \<Longrightarrow> Top q = (Inl ErrQueueIsEmpty, q)"
  by (simp add: Top_def isEmpty_def)

lemma Top_single:
  assumes "length (pairs q) = 1"
  shows "Top q = (Inr (pairs q ! 0),
                  q\<lparr>pairs := [], indexMap := (indexMap q)(val (pairs q ! 0) := None)\<rparr>)"
  using assms by (simp add: Top_def isEmpty_def removeLast_def Let_def)

lemma Top_many:
  assumes "2 \<le> length (pairs q)"
  shows "Top q = (Inr (pairs q ! 0),
                  (pushDownIndex (rootLast q) 0)
                    \<lparr>indexMap := (indexMap (pushDownIndex (rootLast q) 0))(val (pairs q ! 0) := None)\<rparr>)"
proof -
  from assms obtain x y zs where ps: "pairs q = x # y # zs"
    by (cases "pairs q"; cases "tl (pairs q)") auto
  then show ?thesis
    by (simp add: Top_def isEmpty_def removeLast_def Let_def pushDown_def rootLast_def)
qed

lemma rootLast_sel [simp]:
  "sizeD (rootLast q) = sizeD q"
  "length (pairs (rootLast q)) = length (pairs q) - 1"
  by (simp_all add: rootLast_def)

lemma rootLast_nth:
  "k < length (pairs q) - 1 \<Longrightarrow>
   pairs (rootLast q) ! k = (if k = 0 then pairs q ! (length (pairs q) - 1) else pairs q ! k)"
  by (simp add: rootLast_def)

lemma idx_sound_rootLast:
  assumes s: "idx_sound_except {} q" and n: "2 \<le> length (pairs q)"
  shows "idx_sound_except {val (pairs q ! 0)} (rootLast q)"
  unfolding idx_sound_except_def
proof (intro allI impI)
  let ?n = "length (pairs q) - 1"
  fix w k assume we: "w \<notin> {val (pairs q ! 0)}" and wk: "indexMap (rootLast q) w = Some k"
  show "k < length (pairs (rootLast q)) \<and> val (pairs (rootLast q) ! k) = w"
  proof (cases "w = val (pairs q ! ?n)")
    case True
    with wk have "k = 0" by (simp add: rootLast_def)
    with True n show ?thesis by (simp add: rootLast_nth)
  next
    case False
    with wk have "indexMap q w = Some k" by (simp add: rootLast_def)
    with s have k: "k < length (pairs q)" "val (pairs q ! k) = w" by (auto simp: idx_sound_except_def)
    with False we have "k \<noteq> ?n" "k \<noteq> 0" by (auto intro: ccontr)
    with k show ?thesis by (simp add: rootLast_nth)
  qed
qed

lemma idx_complete_rootLast:
  assumes c: "idx_complete q" and n: "2 \<le> length (pairs q)"
  shows "idx_complete (rootLast q) \<and> (\<forall>p \<in> set (pairs (rootLast q)). val p \<noteq> val (pairs q ! 0))"
proof -
  let ?n = "length (pairs q) - 1"
  from n have l: "?n < length (pairs q)" "0 < length (pairs q)" "0 \<noteq> ?n" by linarith+
  have nth: "indexMap (rootLast q) (val (pairs (rootLast q) ! k)) = Some k \<and>
             val (pairs (rootLast q) ! k) \<noteq> val (pairs q ! 0)" if k: "k < ?n" for k
  proof (cases "k = 0")
    case True
    from idx_complete_inj [OF c l(1,2)] l(3) have "val (pairs q ! ?n) \<noteq> val (pairs q ! 0)" by auto
    with True k show ?thesis by (simp add: rootLast_nth) (simp add: rootLast_def)
  next
    case False
    from k have kl: "k < length (pairs q)" "k \<noteq> ?n" by simp_all
    from idx_complete_inj [OF c kl(1) l(1)] kl(2)
    have a: "val (pairs q ! k) \<noteq> val (pairs q ! ?n)" by auto
    from idx_complete_inj [OF c kl(1) l(2)] False
    have b: "val (pairs q ! k) \<noteq> val (pairs q ! 0)" by auto
    from c kl(1) have "indexMap q (val (pairs q ! k)) = Some k" by (simp add: idx_complete_def)
    with False k a b show ?thesis by (simp add: rootLast_nth) (simp add: rootLast_def)
  qed
  then have "idx_complete (rootLast q)" by (simp add: idx_complete_def)
  moreover have "\<forall>p \<in> set (pairs (rootLast q)). val p \<noteq> val (pairs q ! 0)"
  proof
    fix p assume "p \<in> set (pairs (rootLast q))"
    then obtain k where "k < ?n" "p = pairs (rootLast q) ! k" by (auto simp: in_set_conv_nth)
    with nth show "val p \<noteq> val (pairs q ! 0)" by simp
  qed
  ultimately show ?thesis by simp
qed

lemma idx_sound_delete:
  "idx_sound_except {e} q \<Longrightarrow> idx_sound_except {} (q\<lparr>indexMap := (indexMap q)(e := None)\<rparr>)"
  by (auto simp: idx_sound_except_def split: if_splits)

lemma idx_inv_delete:
  assumes "idx_inv {e} q"
  shows "idx_inv {} (q\<lparr>indexMap := (indexMap q)(e := None)\<rparr>)"
proof -
  from assms have "idx_complete (q\<lparr>indexMap := (indexMap q)(e := None)\<rparr>)"
    by (auto simp: idx_inv_def idx_complete_def)
  with assms show ?thesis by (simp add: idx_inv_def idx_sound_delete)
qed

lemma idx_sound_Top:
  assumes s: "idx_sound_except {} q"
  shows "idx_sound_except {} (snd (Top q))"
proof -
  consider "pairs q = []" | "length (pairs q) = 1" | "2 \<le> length (pairs q)"
    by (cases "pairs q") (auto simp: Suc_le_eq)
  then show ?thesis
  proof cases
    case 1
    with s show ?thesis by (simp add: Top_empty)
  next
    case 2
    have "indexMap q w = None" if "w \<noteq> val (pairs q ! 0)" for w
    proof (cases "indexMap q w")
      case (Some k)
      with s have "k < length (pairs q)" "val (pairs q ! k) = w"
        by (auto simp: idx_sound_except_def)
      with 2 that show ?thesis by simp
    qed simp
    then have "idx_sound_except {} (q\<lparr>pairs := [], indexMap := (indexMap q)(val (pairs q ! 0) := None)\<rparr>)"
      by (simp add: idx_sound_except_def)
    with 2 show ?thesis by (simp add: Top_single)
  next
    case 3
    from idx_sound_rootLast [OF s 3]
    have "idx_sound_except {val (pairs q ! 0)} (pushDownIndex (rootLast q) 0)"
      by (rule idx_sound_pushDownIndex)
    then show ?thesis by (simp add: Top_many [OF 3] idx_sound_delete)
  qed
qed

lemma idx_inv_Top:
  assumes inv: "idx_inv {} q"
  shows "idx_inv {} (snd (Top q))"
proof -
  from inv have s: "idx_sound_except {} q" and c: "idx_complete q" by (simp_all add: idx_inv_def)
  consider "pairs q = []" | "length (pairs q) = 1" | "2 \<le> length (pairs q)"
    by (cases "pairs q") (auto simp: Suc_le_eq)
  then show ?thesis
  proof cases
    case 1
    with inv show ?thesis by (simp add: Top_empty)
  next
    case 2
    from idx_sound_Top [OF s] 2
    have "idx_sound_except {} (q\<lparr>pairs := [], indexMap := (indexMap q)(val (pairs q ! 0) := None)\<rparr>)"
      by (simp add: Top_single)
    then show ?thesis by (simp add: Top_single [OF 2] idx_inv_def idx_complete_def)
  next
    case 3
    from idx_sound_rootLast [OF s 3] idx_complete_rootLast [OF c 3]
    have "idx_inv {val (pairs q ! 0)} (rootLast q)" by (simp add: idx_inv_def)
    then have "idx_inv {val (pairs q ! 0)} (pushDownIndex (rootLast q) 0)"
      by (rule idx_inv_pushDownIndex)
    then show ?thesis by (simp add: Top_many [OF 3] idx_inv_delete)
  qed
qed

section \<open>Sequences of calls\<close>

text \<open>
  A client of the package holds a queue made by NewPriorityQueue and calls its methods.
  \<open>run cs q\<close> is the state after the calls \<open>cs\<close>, in order; \<open>inserts_fresh cs q\<close> says
  that each Insert of \<open>cs\<close> is called with a value that is not in the index at that moment,
  which is the precondition the specification gives Insert.
\<close>

datatype ('p, 'v) call = CallInsert 'v 'p | CallRemove 'v | CallUpdate 'v 'p | CallTop

fun exec :: "('p::linorder, 'v) call \<Rightarrow> ('p, 'v) PriorityQueue \<Rightarrow> ('p, 'v) PriorityQueue" where
  "exec (CallInsert v p) q = Insert q v p"
| "exec (CallRemove v) q = snd (Remove q v)"
| "exec (CallUpdate v p) q = snd (Update q v p)"
| "exec CallTop q = snd (Top q)"

fun run :: "('p::linorder, 'v) call list \<Rightarrow> ('p, 'v) PriorityQueue \<Rightarrow> ('p, 'v) PriorityQueue" where
  "run [] q = q"
| "run (c # cs) q = run cs (exec c q)"

fun precondition :: "('p, 'v) call \<Rightarrow> ('p, 'v) PriorityQueue \<Rightarrow> bool" where
  "precondition (CallInsert v p) q = (indexMap q v = None)"
| "precondition (CallRemove v) q = True"
| "precondition (CallUpdate v p) q = True"
| "precondition CallTop q = True"

fun inserts_fresh :: "('p::linorder, 'v) call list \<Rightarrow> ('p, 'v) PriorityQueue \<Rightarrow> bool" where
  "inserts_fresh [] q = True"
| "inserts_fresh (c # cs) q = (precondition c q \<and> inserts_fresh cs (exec c q))"

definition reachable :: "('p::linorder, 'v) PriorityQueue \<Rightarrow> bool" where
  "reachable q = (\<exists>cs d capacity. q = run cs (NewPriorityQueue d capacity))"

definition reachable_fresh :: "('p::linorder, 'v) PriorityQueue \<Rightarrow> bool" where
  "reachable_fresh q =
     (\<exists>cs d capacity. inserts_fresh cs (NewPriorityQueue d capacity) \<and>
                      q = run cs (NewPriorityQueue d capacity))"

lemma idx_sound_New: "idx_sound_except {} (NewPriorityQueue d capacity)"
  by (simp add: idx_sound_except_def NewPriorityQueue_def Let_def)

lemma idx_inv_New: "idx_inv {} (NewPriorityQueue d capacity)"
  by (simp add: idx_inv_def idx_complete_def idx_sound_New) (simp add: NewPriorityQueue_def Let_def)

lemma idx_sound_exec: "idx_sound_except {} q \<Longrightarrow> idx_sound_except {} (exec c q)"
  by (cases c) (simp_all add: idx_sound_Insert idx_sound_Remove idx_sound_Update idx_sound_Top)

lemma idx_inv_exec: "idx_inv {} q \<Longrightarrow> precondition c q \<Longrightarrow> idx_inv {} (exec c q)"
  by (cases c) (simp_all add: idx_inv_Insert idx_inv_Remove idx_inv_Update idx_inv_Top)

lemma idx_sound_run: "idx_sound_except {} q \<Longrightarrow> idx_sound_except {} (run cs q)"
  by (induction cs arbitrary: q) (simp_all add: idx_sound_exec)

lemma idx_inv_run: "idx_inv {} q \<Longrightarrow> inserts_fresh cs q \<Longrightarrow> idx_inv {} (run cs q)"
  by (induction cs arbitrary: q) (simp_all add: idx_inv_exec)

lemma idx_sound_reachable: "reachable q \<Longrightarrow> idx_sound_except {} q"
  by (auto simp: reachable_def idx_sound_run idx_sound_New)

lemma inserts_fresh_take: "inserts_fresh cs q \<Longrightarrow> inserts_fresh (take n cs) q"
proof (induction cs arbitrary: q n)
  case Nil
  then show ?case by simp
next
  case (Cons c cs)
  then show ?case by (cases n) simp_all
qed

text \<open>
  C5. Starting from a new queue, after every call of a sequence of Insert, Remove, Update
  and Top calls in which no Insert is given a value already in the index, every occupied
  position \<open>i\<close> satisfies \<open>Index[Storage[i].value] = i\<close>, and the keys of the index are
  exactly the stored values.
\<close>

theorem C5_index_consistent:
  assumes "inserts_fresh cs (NewPriorityQueue d capacity)" and "n \<le> length cs"
  shows "index_ok (run (take n cs) (NewPriorityQueue d capacity))"
  unfolding index_ok_iff
  using assms(1) by (intro idx_inv_run idx_inv_New inserts_fresh_take)

theorem C5_index_consistent_witness:
  "inserts_fresh [CallInsert ''A'' 10, CallInsert ''B'' 5, CallInsert ''C'' 8, CallUpdate ''B'' 20,
                  CallRemove ''A'', CallTop, CallInsert ''A'' 3]
     (NewPriorityQueue 2 0 :: (int, string) PriorityQueue) \<and>
   (7::nat) \<le> length [CallInsert ''A'' (10::int), CallInsert ''B'' 5, CallInsert ''C'' 8,
                  CallUpdate ''B'' 20, CallRemove ''A'', CallTop, CallInsert ''A'' 3] \<and>
   index_ok (run (take 7 [CallInsert ''A'' 10, CallInsert ''B'' 5, CallInsert ''C'' 8,
                          CallUpdate ''B'' 20, CallRemove ''A'', CallTop, CallInsert ''A'' 3])
              (NewPriorityQueue 2 0 :: (int, string) PriorityQueue))"
proof -
  let ?cs = "[CallInsert ''A'' 10, CallInsert ''B'' 5, CallInsert ''C'' 8, CallUpdate ''B'' 20,
              CallRemove ''A'', CallTop, CallInsert ''A'' 3] :: (int, string) call list"
  have f: "inserts_fresh ?cs (NewPriorityQueue 2 0)" by code_simp
  have l: "(7::nat) \<le> length ?cs" by simp
  from C5_index_consistent [OF f l] f l show ?thesis by blast
qed

section \<open>The scenario of the specification, run on the code\<close>

definition scenario_inserted :: "(int, string) PriorityQueue" where
  "scenario_inserted = Insert (Insert (Insert (NewPriorityQueue 2 0) ''A'' 10) ''B'' 5) ''C'' 8"

definition scenario_updated :: "(int, string) PriorityQueue" where
  "scenario_updated = snd (Update scenario_inserted ''B'' 20)"

definition scenario_removed :: "(int, string) PriorityQueue" where
  "scenario_removed = snd (Remove scenario_updated ''A'')"

text \<open>
  C1. With \<open>d = 2\<close>, after Insert(A,10), Insert(B,5), Insert(C,8) Peek returns (10,A), as
  the scenario says. Update(B,20) then calls pushDownIndex on position 1, which is a leaf,
  so B stays below A: Peek still returns (10,A), where the scenario expects (20,B).
  Remove(A) moves C to the root and calls bubbleUpIndex on position 0: Peek returns (8,C),
  not (20,B). The first Top returns (8,C) and the second (20,B), the reverse of the
  scenario; the queue is then empty and Peek fails with ErrQueueIsEmpty.
\<close>

theorem C1_scenario_on_code:
  "Peek scenario_inserted = Inr \<lparr>priority = 10, val = ''A''\<rparr> \<and>
   fst (Update scenario_inserted ''B'' 20) = None \<and>
   pairs scenario_updated =
     [\<lparr>priority = 10, val = ''A''\<rparr>, \<lparr>priority = 20, val = ''B''\<rparr>, \<lparr>priority = 8, val = ''C''\<rparr>] \<and>
   Peek scenario_updated = Inr \<lparr>priority = 10, val = ''A''\<rparr> \<and>
   fst (Remove scenario_updated ''A'') = None \<and>
   pairs scenario_removed = [\<lparr>priority = 8, val = ''C''\<rparr>, \<lparr>priority = 20, val = ''B''\<rparr>] \<and>
   Peek scenario_removed = Inr \<lparr>priority = 8, val = ''C''\<rparr> \<and>
   fst (Top scenario_removed) = Inr \<lparr>priority = 8, val = ''C''\<rparr> \<and>
   Peek (snd (Top scenario_removed)) = Inr \<lparr>priority = 20, val = ''B''\<rparr> \<and>
   fst (Top (snd (Top scenario_removed))) = Inr \<lparr>priority = 20, val = ''B''\<rparr> \<and>
   pairs (snd (Top (snd (Top scenario_removed)))) = [] \<and>
   Peek (snd (Top (snd (Top scenario_removed)))) = Inl ErrQueueIsEmpty"
  by code_simp

section \<open>Errors\<close>

lemma Update_absent: "indexMap q v = None \<Longrightarrow> Update q v p = (Some ErrElementNotFound, q)"
  by (simp add: Update_def)

lemma Remove_present_no_error:
  assumes "indexMap q v = Some i" "i < length (pairs q)"
  shows "fst (Remove q v) = None"
proof (cases "Suc i = length (pairs q)")
  case True
  then show ?thesis by (simp add: Remove_last [OF assms(1)])
next
  case False
  with assms(2) have "Suc i < length (pairs q)" by simp
  then show ?thesis by (simp add: Remove_inner [OF assms(1)])
qed

lemma Update_present_no_error:
  assumes "indexMap q v = Some i" "i < length (pairs q)"
  shows "fst (Update q v p) = None"
  by (simp add: Update_unfold [OF assms])

lemma Top_nonempty_no_error:
  assumes "pairs q \<noteq> []"
  shows "fst (Top q) = Inr (pairs q ! 0)"
proof (cases "length (pairs q) = 1")
  case True
  then show ?thesis by (simp add: Top_single)
next
  case False
  moreover from assms have "length (pairs q) \<noteq> 0" by simp
  ultimately have "2 \<le> length (pairs q)" by linarith
  then show ?thesis by (simp add: Top_many)
qed

lemma sizeD_New: "2 \<le> sizeD (NewPriorityQueue d capacity)"
  by (auto simp: NewPriorityQueue_def Let_def)

lemma sizeD_Insert: "sizeD (Insert q v p) = sizeD q"
  unfolding Insert_unfold by (subst sizeD_bubbleUpIndex) simp_all

lemma sizeD_Update: "sizeD (snd (Update q v p)) = sizeD q"
proof (cases "indexMap q v")
  case None
  then show ?thesis by (simp add: Update_absent)
next
  case (Some i)
  show ?thesis
  proof (cases "i < length (pairs q)")
    case True
    with Update_cases [OF Some True, of p] show ?thesis
      by (auto simp: sizeD_bubbleUpIndex sizeD_pushDownIndex)
  next
    case False
    with Some show ?thesis by (simp add: Update_def)
  qed
qed

lemma sizeD_Remove: "sizeD (snd (Remove q v)) = sizeD q"
proof (cases "indexMap q v")
  case None
  then show ?thesis by (simp add: Remove_absent)
next
  case (Some i)
  consider "Suc i = length (pairs q)" | "Suc i < length (pairs q)" | "length (pairs q) \<le> i"
    by linarith
  then show ?thesis
  proof cases
    case 1
    then show ?thesis by (simp add: Remove_last [OF Some])
  next
    case 2
    with Remove_inner_cases [OF Some 2] show ?thesis
      by (auto simp: sizeD_bubbleUpIndex sizeD_pushDownIndex)
  next
    case 3
    then show ?thesis by (simp add: Remove_panic [OF Some])
  qed
qed

lemma sizeD_Top: "sizeD (snd (Top q)) = sizeD q"
proof -
  consider "pairs q = []" | "length (pairs q) = 1" | "2 \<le> length (pairs q)"
    by (cases "pairs q") (auto simp: Suc_le_eq)
  then show ?thesis
  proof cases
    case 1
    then show ?thesis by (simp add: Top_empty)
  next
    case 2
    then show ?thesis by (simp add: Top_single)
  next
    case 3
    then show ?thesis by (simp add: Top_many sizeD_pushDownIndex)
  qed
qed

lemma sizeD_exec: "sizeD (exec c q) = sizeD q"
  by (cases c) (simp_all add: sizeD_Insert sizeD_Remove sizeD_Update sizeD_Top)

lemma sizeD_run: "sizeD (run cs q) = sizeD q"
  by (induction cs arbitrary: q) (simp_all add: sizeD_exec)

lemma sizeD_reachable: "reachable q \<Longrightarrow> 2 \<le> sizeD q"
  by (auto simp: reachable_def sizeD_run sizeD_New)

text \<open>
  C7. In every state reached from a new queue by calls of the public methods: Peek and Top
  return ErrQueueIsEmpty exactly when the slice is empty, and Top then leaves the state as
  it is (Peek never changes it); Remove and Update return ErrElementNotFound exactly when
  the value is not a key of the index, and then leave the state as it is; and no call
  returns any other error, in particular no index of the slice is out of range. The
  branching factor is at least 2, so no division by it fails.
\<close>

theorem C7_errors:
  assumes "reachable q"
  shows "(Peek q = Inl ErrQueueIsEmpty \<longleftrightarrow> length (pairs q) = 0) \<and>
         (\<forall>e. Peek q = Inl e \<longrightarrow> e = ErrQueueIsEmpty) \<and>
         (fst (Top q) = Inl ErrQueueIsEmpty \<longleftrightarrow> length (pairs q) = 0) \<and>
         (\<forall>e. fst (Top q) = Inl e \<longrightarrow> e = ErrQueueIsEmpty \<and> snd (Top q) = q) \<and>
         (fst (Remove q v) = Some ErrElementNotFound \<longleftrightarrow> indexMap q v = None) \<and>
         (\<forall>e. fst (Remove q v) = Some e \<longrightarrow> e = ErrElementNotFound \<and> snd (Remove q v) = q) \<and>
         (fst (Update q v p) = Some ErrElementNotFound \<longleftrightarrow> indexMap q v = None) \<and>
         (\<forall>e. fst (Update q v p) = Some e \<longrightarrow> e = ErrElementNotFound \<and> snd (Update q v p) = q) \<and>
         2 \<le> sizeD q"
proof -
  from assms have s: "idx_sound_except {} q" by (rule idx_sound_reachable)
  from assms have dz: "2 \<le> sizeD q" by (rule sizeD_reachable)
  have peek: "(Peek q = Inl ErrQueueIsEmpty \<longleftrightarrow> length (pairs q) = 0) \<and>
              (\<forall>e. Peek q = Inl e \<longrightarrow> e = ErrQueueIsEmpty)"
    by (simp add: Peek_def isEmpty_def)
  have top: "(fst (Top q) = Inl ErrQueueIsEmpty \<longleftrightarrow> length (pairs q) = 0) \<and>
             (\<forall>e. fst (Top q) = Inl e \<longrightarrow> e = ErrQueueIsEmpty \<and> snd (Top q) = q)"
  proof (cases "pairs q = []")
    case True
    then show ?thesis by (simp add: Top_empty)
  next
    case False
    then show ?thesis by (simp add: Top_nonempty_no_error)
  qed
  have rem: "(fst (Remove q v) = Some ErrElementNotFound \<longleftrightarrow> indexMap q v = None) \<and>
             (\<forall>e. fst (Remove q v) = Some e \<longrightarrow> e = ErrElementNotFound \<and> snd (Remove q v) = q)"
  proof (cases "indexMap q v")
    case None
    then show ?thesis by (simp add: Remove_absent)
  next
    case (Some i)
    with s have "i < length (pairs q)" by (auto simp: idx_sound_except_def)
    from Remove_present_no_error [OF Some this] Some show ?thesis by simp
  qed
  have upd: "(fst (Update q v p) = Some ErrElementNotFound \<longleftrightarrow> indexMap q v = None) \<and>
             (\<forall>e. fst (Update q v p) = Some e \<longrightarrow> e = ErrElementNotFound \<and> snd (Update q v p) = q)"
  proof (cases "indexMap q v")
    case None
    then show ?thesis by (simp add: Update_absent)
  next
    case (Some i)
    with s have "i < length (pairs q)" by (auto simp: idx_sound_except_def)
    from Update_present_no_error [OF Some this] Some show ?thesis by simp
  qed
  from peek top rem upd dz show ?thesis by blast
qed

theorem C7_errors_witness:
  "reachable scenario_inserted \<and>
   length (pairs scenario_inserted) \<noteq> 0 \<and>
   Peek scenario_inserted \<noteq> Inl ErrQueueIsEmpty \<and>
   fst (Top scenario_inserted) \<noteq> Inl ErrQueueIsEmpty \<and>
   indexMap scenario_inserted ''D'' = None \<and>
   fst (Remove scenario_inserted ''D'') = Some ErrElementNotFound \<and>
   snd (Remove scenario_inserted ''D'') = scenario_inserted \<and>
   fst (Update scenario_inserted ''D'' 1) = Some ErrElementNotFound \<and>
   snd (Update scenario_inserted ''D'' 1) = scenario_inserted \<and>
   indexMap scenario_inserted ''A'' = Some 0 \<and>
   fst (Remove scenario_inserted ''A'') = None \<and>
   fst (Update scenario_inserted ''A'' 1) = None"
proof -
  have "scenario_inserted =
      run [CallInsert ''A'' 10, CallInsert ''B'' 5, CallInsert ''C'' 8] (NewPriorityQueue 2 0)"
    by (simp add: scenario_inserted_def)
  then have r: "reachable scenario_inserted" unfolding reachable_def by blast
  have n: "length (pairs scenario_inserted) \<noteq> 0" by code_simp
  have d: "indexMap scenario_inserted ''D'' = None" by code_simp
  have a: "indexMap scenario_inserted ''A'' = Some 0" by code_simp
  note D = C7_errors [OF r, of "''D''" 1]
  note A = C7_errors [OF r, of "''A''" 1]
  from D n have p: "Peek scenario_inserted \<noteq> Inl ErrQueueIsEmpty"
    and t: "fst (Top scenario_inserted) \<noteq> Inl ErrQueueIsEmpty" by blast+
  from D d have rd: "fst (Remove scenario_inserted ''D'') = Some ErrElementNotFound"
    and ud: "fst (Update scenario_inserted ''D'' 1) = Some ErrElementNotFound" by blast+
  from D rd ud have sd: "snd (Remove scenario_inserted ''D'') = scenario_inserted"
    and su: "snd (Update scenario_inserted ''D'' 1) = scenario_inserted" by blast+
  from A a have "fst (Remove scenario_inserted ''A'') \<noteq> Some ErrElementNotFound"
    and "fst (Update scenario_inserted ''A'' 1) \<noteq> Some ErrElementNotFound" by auto
  with A have ra: "fst (Remove scenario_inserted ''A'') = None"
    and ua: "fst (Update scenario_inserted ''A'' 1) = None"
    by (metis option.exhaust)+
  from r n p t d rd sd ud su a ra ua show ?thesis by (intro conjI)
qed


section \<open>The order of the heap\<close>

text \<open>
  \<open>max_heap q\<close>: every position but the root holds a priority that is at most the priority
  of its parent, the parent of \<open>i\<close> being \<open>(i - 1) / d\<close>.
\<close>

definition max_heap :: "('p::linorder, 'v) PriorityQueue \<Rightarrow> bool" where
  "max_heap q =
     (\<forall>i \<in> {1..<length (pairs q)}.
        priority (pairs q ! i) \<le> priority (pairs q ! getParentIndex q i))"

lemma length_Top:
  assumes "pairs q \<noteq> []"
  shows "length (pairs (snd (Top q))) = length (pairs q) - 1"
proof (cases "length (pairs q) = 1")
  case True
  then show ?thesis by (simp add: Top_single)
next
  case False
  moreover from assms have "length (pairs q) \<noteq> 0" by simp
  ultimately have "2 \<le> length (pairs q)" by linarith
  then show ?thesis by (simp add: Top_many length_pushDownIndex)
qed

text \<open>Calling Top until it fails, collecting the pairs it returns.\<close>

function drain :: "('p::linorder, 'v) PriorityQueue \<Rightarrow> ('p, 'v) Pair list" where
  "drain q = (case Top q of (Inl e, q1) \<Rightarrow> [] | (Inr p, q1) \<Rightarrow> p # drain q1)"
  by pat_completeness auto
termination
proof (relation "measure (\<lambda>q. length (pairs q))")
  show "wf (measure (\<lambda>q :: ('p::linorder, 'v) PriorityQueue. length (pairs q)))" by simp
next
  fix q :: "('p::linorder, 'v) PriorityQueue" and x1 q1 p
  assume t: "(x1, q1) = Top q" and r: "x1 = Inr p"
  have ne: "pairs q \<noteq> []"
  proof
    assume "pairs q = []"
    with t r show False by (simp add: Top_empty)
  qed
  from t have "q1 = snd (Top q)" by (metis snd_conv)
  with length_Top [OF ne] ne show "(q1, q) \<in> measure (\<lambda>q. length (pairs q))"
    by (cases "pairs q") simp_all
qed

declare drain.simps [simp del]

text \<open>
  C2. Update on the code. In the queue of the scenario (A,10), (B,5), (C,8), B is at
  position 1. Raising B to 20 makes Update call pushDownIndex on position 1, which leaves B
  under A; bubbleUpIndex on the same state would have moved B to the root. Lowering A, at
  the root, to 1 makes Update call bubbleUpIndex on position 0, which leaves A over B and C;
  pushDownIndex would have moved A down. So the code pushes down when the priority is
  raised and bubbles up when it is lowered, the reverse of what is claimed.
\<close>

theorem C2_Update_on_code:
  "indexMap scenario_inserted ''B'' = Some 1 \<and>
   fst (Update scenario_inserted ''B'' 20) = None \<and>
   pairs (snd (Update scenario_inserted ''B'' 20)) =
     [\<lparr>priority = 10, val = ''A''\<rparr>, \<lparr>priority = 20, val = ''B''\<rparr>, \<lparr>priority = 8, val = ''C''\<rparr>] \<and>
   pairs (pushDownIndex (setPriority scenario_inserted 1 20) 1) =
     [\<lparr>priority = 10, val = ''A''\<rparr>, \<lparr>priority = 20, val = ''B''\<rparr>, \<lparr>priority = 8, val = ''C''\<rparr>] \<and>
   pairs (bubbleUpIndex (setPriority scenario_inserted 1 20) 1) =
     [\<lparr>priority = 20, val = ''B''\<rparr>, \<lparr>priority = 10, val = ''A''\<rparr>, \<lparr>priority = 8, val = ''C''\<rparr>] \<and>
   indexMap scenario_inserted ''A'' = Some 0 \<and>
   fst (Update scenario_inserted ''A'' 1) = None \<and>
   pairs (snd (Update scenario_inserted ''A'' 1)) =
     [\<lparr>priority = 1, val = ''A''\<rparr>, \<lparr>priority = 5, val = ''B''\<rparr>, \<lparr>priority = 8, val = ''C''\<rparr>] \<and>
   pairs (bubbleUpIndex (setPriority scenario_inserted 0 1) 0) =
     [\<lparr>priority = 1, val = ''A''\<rparr>, \<lparr>priority = 5, val = ''B''\<rparr>, \<lparr>priority = 8, val = ''C''\<rparr>] \<and>
   pairs (pushDownIndex (setPriority scenario_inserted 0 1) 0) =
     [\<lparr>priority = 8, val = ''C''\<rparr>, \<lparr>priority = 5, val = ''B''\<rparr>, \<lparr>priority = 1, val = ''A''\<rparr>]"
  by code_simp

text \<open>
  C3. The order of the heap on the code. The calls Insert(A,10), Insert(B,5), Insert(C,8),
  Update(B,20) on a new queue with \<open>d = 2\<close> insert no value twice, and leave (20,B) at
  position 1 under its parent (10,A) at position 0. Remove breaks the order as well:
  after the inserts (a,10), (b,5), (c,9), (d,4), (e,3), (f,8) the order holds, and
  Remove(d) moves (8,f) to position 3, under its parent (5,b) at position 1, and calls
  pushDownIndex there.
\<close>

theorem C3_max_heap_on_code:
  "inserts_fresh [CallInsert ''A'' 10, CallInsert ''B'' 5, CallInsert ''C'' 8, CallUpdate ''B'' 20]
     (NewPriorityQueue 2 0 :: (int, string) PriorityQueue) \<and>
   pairs (run [CallInsert ''A'' 10, CallInsert ''B'' 5, CallInsert ''C'' 8, CallUpdate ''B'' 20]
            (NewPriorityQueue 2 0 :: (int, string) PriorityQueue)) =
     [\<lparr>priority = 10, val = ''A''\<rparr>, \<lparr>priority = 20, val = ''B''\<rparr>, \<lparr>priority = 8, val = ''C''\<rparr>] \<and>
   \<not> max_heap (run [CallInsert ''A'' 10, CallInsert ''B'' 5, CallInsert ''C'' 8, CallUpdate ''B'' 20]
                  (NewPriorityQueue 2 0 :: (int, string) PriorityQueue)) \<and>
   inserts_fresh [CallInsert ''a'' 10, CallInsert ''b'' 5, CallInsert ''c'' 9, CallInsert ''d'' 4,
                  CallInsert ''e'' 3, CallInsert ''f'' 8, CallRemove ''d'']
     (NewPriorityQueue 2 0 :: (int, string) PriorityQueue) \<and>
   max_heap (run [CallInsert ''a'' 10, CallInsert ''b'' 5, CallInsert ''c'' 9, CallInsert ''d'' 4,
                  CallInsert ''e'' 3, CallInsert ''f'' 8]
               (NewPriorityQueue 2 0 :: (int, string) PriorityQueue)) \<and>
   pairs (run [CallInsert ''a'' 10, CallInsert ''b'' 5, CallInsert ''c'' 9, CallInsert ''d'' 4,
               CallInsert ''e'' 3, CallInsert ''f'' 8, CallRemove ''d'']
            (NewPriorityQueue 2 0 :: (int, string) PriorityQueue)) =
     [\<lparr>priority = 10, val = ''a''\<rparr>, \<lparr>priority = 5, val = ''b''\<rparr>, \<lparr>priority = 9, val = ''c''\<rparr>,
      \<lparr>priority = 8, val = ''f''\<rparr>, \<lparr>priority = 3, val = ''e''\<rparr>] \<and>
   \<not> max_heap (run [CallInsert ''a'' 10, CallInsert ''b'' 5, CallInsert ''c'' 9, CallInsert ''d'' 4,
                    CallInsert ''e'' 3, CallInsert ''f'' 8, CallRemove ''d'']
                  (NewPriorityQueue 2 0 :: (int, string) PriorityQueue))"
  by code_simp

theorem C3_max_heap_on_code_witness:
  "1 \<in> {1..<length (pairs (run [CallInsert ''A'' 10, CallInsert ''B'' 5, CallInsert ''C'' 8,
                                    CallUpdate ''B'' 20]
                              (NewPriorityQueue 2 0 :: (int, string) PriorityQueue)))} \<and>
   \<not> priority (pairs (run [CallInsert ''A'' 10, CallInsert ''B'' 5, CallInsert ''C'' 8,
                            CallUpdate ''B'' 20]
                       (NewPriorityQueue 2 0 :: (int, string) PriorityQueue)) ! 1)
      \<le> priority (pairs (run [CallInsert ''A'' 10, CallInsert ''B'' 5, CallInsert ''C'' 8,
                               CallUpdate ''B'' 20]
                          (NewPriorityQueue 2 0 :: (int, string) PriorityQueue)) !
                   getParentIndex (run [CallInsert ''A'' 10, CallInsert ''B'' 5, CallInsert ''C'' 8,
                                        CallUpdate ''B'' 20]
                                   (NewPriorityQueue 2 0 :: (int, string) PriorityQueue)) 1) \<and>
   \<not> max_heap (run [CallInsert ''A'' 10, CallInsert ''B'' 5, CallInsert ''C'' 8, CallUpdate ''B'' 20]
                  (NewPriorityQueue 2 0 :: (int, string) PriorityQueue))"
proof -
  let ?st = "run [CallInsert ''A'' 10, CallInsert ''B'' 5, CallInsert ''C'' 8, CallUpdate ''B'' 20]
               (NewPriorityQueue 2 0 :: (int, string) PriorityQueue)"
  from C3_max_heap_on_code have ps: "pairs ?st =
     [\<lparr>priority = 10, val = ''A''\<rparr>, \<lparr>priority = 20, val = ''B''\<rparr>, \<lparr>priority = 8, val = ''C''\<rparr>]"
    and nh: "\<not> max_heap ?st" by blast+
  have "getParentIndex ?st 1 = 0" by (simp add: getParentIndex_nat)
  with ps nh show ?thesis by simp
qed

text \<open>
  C6. The order of extraction on the code. From the state after Insert(A,10), Insert(B,5),
  Insert(C,8), Update(B,20), which inserts no value twice, calling Top until the queue is
  empty returns the priorities 10, 20, 8, which are not in non-increasing order.
\<close>

theorem C6_drain_on_code:
  "inserts_fresh [CallInsert ''A'' 10, CallInsert ''B'' 5, CallInsert ''C'' 8, CallUpdate ''B'' 20]
     (NewPriorityQueue 2 0 :: (int, string) PriorityQueue) \<and>
   drain (run [CallInsert ''A'' 10, CallInsert ''B'' 5, CallInsert ''C'' 8, CallUpdate ''B'' 20]
            (NewPriorityQueue 2 0 :: (int, string) PriorityQueue)) =
     [\<lparr>priority = 10, val = ''A''\<rparr>, \<lparr>priority = 20, val = ''B''\<rparr>, \<lparr>priority = 8, val = ''C''\<rparr>] \<and>
   \<not> sorted_wrt (\<lambda>a b. priority a \<ge> priority b)
       (drain (run [CallInsert ''A'' 10, CallInsert ''B'' 5, CallInsert ''C'' 8, CallUpdate ''B'' 20]
                 (NewPriorityQueue 2 0 :: (int, string) PriorityQueue)))"
  by code_simp

section \<open>The choice of the child in pushDownIndex\<close>

text \<open>
  \<open>scanned q s i b bi\<close> is the invariant of the scan of highestPriorityChild when the
  positions from \<open>s\<close> up to \<open>i\<close> (excluded) have been seen: \<open>b\<close> is the pair at \<open>bi\<close>, no seen
  position has a higher priority, and every seen position before \<open>bi\<close> has a strictly lower
  one.
\<close>

definition scanned ::
  "('p::linorder, 'v) PriorityQueue \<Rightarrow> nat \<Rightarrow> nat \<Rightarrow> ('p, 'v) Pair \<Rightarrow> nat \<Rightarrow> bool" where
  "scanned q s i b bi =
     (b = pairs q ! bi \<and> s \<le> bi \<and> bi < i \<and>
      (\<forall>j. s \<le> j \<and> j < i \<longrightarrow> priority (pairs q ! j) \<le> priority b) \<and>
      (\<forall>j. s \<le> j \<and> j < bi \<longrightarrow> priority (pairs q ! j) < priority b))"

lemma scanned_step_greater:
  assumes "scanned q s i b bi" "priority (pairs q ! i) > priority b"
  shows "scanned q s (i + 1) (pairs q ! i) i"
  using assms unfolding scanned_def
  by (auto simp: less_Suc_eq intro: order.strict_trans1 less_imp_le)

lemma scanned_step_keep:
  assumes "scanned q s i b bi" "\<not> priority (pairs q ! i) > priority b"
  shows "scanned q s (i + 1) b bi"
  using assms unfolding scanned_def
  by (auto simp: less_Suc_eq not_less)

lemma scanChildren_scanned:
  "scanned q s i (fst bb) (snd bb) \<Longrightarrow> i \<le> e + 1 \<Longrightarrow>
   scanned q s (e + 1) (fst (scanChildren q i e bb)) (snd (scanChildren q i e bb))"
proof (induction q i e bb rule: scanChildren.induct)
  case (1 q i endIdx best bestIdx)
  note unfold = scanChildren.simps [of q i endIdx best bestIdx]
  from "1.prems"(1) have sc: "scanned q s i best bestIdx" by simp
  show ?case
  proof (cases "i \<le> endIdx")
    case False
    then have "scanChildren q i endIdx (best, bestIdx) = (best, bestIdx)" by (simp add: unfold)
    moreover from False "1.prems"(2) have "i = endIdx + 1" by simp
    ultimately show ?thesis using sc by simp
  next
    case le: True
    show ?thesis
    proof (cases "priority (pairs q ! i) > priority best")
      case True
      from scanned_step_greater [OF sc True]
      have "scanned q s (i + 1) (fst (pairs q ! i, i)) (snd (pairs q ! i, i))" by simp
      from "1.IH"(1) [OF le True this] le True show ?thesis by (simp add: unfold)
    next
      case False
      from scanned_step_keep [OF sc False]
      have "scanned q s (i + 1) (fst (best, bestIdx)) (snd (best, bestIdx))" by simp
      from "1.IH"(2) [OF le False this] le False show ?thesis by (simp add: unfold)
    qed
  qed
qed

lemma highestPriorityChild_None:
  "highestPriorityChild q c = None \<longleftrightarrow> length (pairs q) \<le> c * sizeD q + 1"
  by (simp add: highestPriorityChild_def Let_def)

lemma highestPriorityChild_best:
  assumes h: "highestPriorityChild q c = Some (r, ri)" and d: "0 < sizeD q"
  shows "r = pairs q ! ri \<and>
         (\<forall>j. c * sizeD q + 1 \<le> j \<and> j \<le> c * sizeD q + sizeD q \<and> j < length (pairs q)
              \<longrightarrow> priority (pairs q ! j) \<le> priority (pairs q ! ri)) \<and>
         (\<forall>j. c * sizeD q + 1 \<le> j \<and> j < ri \<longrightarrow> priority (pairs q ! j) < priority (pairs q ! ri))"
proof -
  let ?s = "c * sizeD q + 1"
  let ?e = "if length (pairs q) \<le> c * sizeD q + sizeD q then length (pairs q) - 1
            else c * sizeD q + sizeD q"
  from highestPriorityChild_scan [OF h]
  have lt: "?s < length (pairs q)"
    and sc: "scanChildren q (?s + 1) ?e (pairs q ! ?s, ?s) = (r, ri)" by simp_all
  have init: "scanned q ?s (?s + 1) (fst (pairs q ! ?s, ?s)) (snd (pairs q ! ?s, ?s))"
    by (auto simp: scanned_def less_Suc_eq)
  from lt d have "?s + 1 \<le> ?e + 1" by auto
  from scanChildren_scanned [OF init this] sc
  have fin: "scanned q ?s (?e + 1) r ri" by simp
  then have "r = pairs q ! ri" by (simp add: scanned_def)
  moreover have "priority (pairs q ! j) \<le> priority (pairs q ! ri)"
    if "?s \<le> j \<and> j \<le> c * sizeD q + sizeD q \<and> j < length (pairs q)" for j
  proof -
    from that have "j < ?e + 1" by auto
    with that fin show ?thesis unfolding scanned_def by blast
  qed
  moreover have "priority (pairs q ! j) < priority (pairs q ! ri)" if "?s \<le> j \<and> j < ri" for j
    using that fin unfolding scanned_def by blast
  ultimately show ?thesis by blast
qed

lemma firstLeafIndex_nat:
  assumes "2 \<le> length (pairs q)"
  shows "firstLeafIndex q = int ((length (pairs q) - 2) div sizeD q) + 1"
proof -
  let ?m = "length (pairs q) - 2"
  from assms have m: "int (length (pairs q)) - 2 = int ?m" by simp
  have "go_div (int ?m) (int (sizeD q)) = int ?m div int (sizeD q)"
    by (rule go_div_nonneg) simp_all
  also have "\<dots> = int (?m div sizeD q)"
    by (simp add: zdiv_int)
  finally show ?thesis
    by (simp only: firstLeafIndex_def m)
qed

lemma no_children_after_firstLeaf:
  assumes "\<not> int c < firstLeafIndex q" and d: "0 < sizeD q"
  shows "length (pairs q) \<le> c * sizeD q + 1"
proof (cases "2 \<le> length (pairs q)")
  case False
  then show ?thesis by simp
next
  case True
  let ?m = "length (pairs q) - 2"
  let ?k = "?m div sizeD q"
  from assms(1) have "?k < c"
    unfolding firstLeafIndex_nat [OF True] by linarith
  then have "Suc ?k \<le> c" by simp
  then have a: "Suc ?k * sizeD q \<le> c * sizeD q" by (rule mult_le_mono1)
  from d have b: "?m < Suc ?k * sizeD q"
    using dividend_less_div_times [of "sizeD q" ?m] by simp
  from b a have "?m < c * sizeD q" by (rule less_le_trans)
  with True show ?thesis by simp
qed

lemma pushDownIndex_step:
  assumes d: "0 < sizeD q"
  shows "pushDownIndex q c =
     (case highestPriorityChild q c of
        None \<Rightarrow> q
      | Some (r, ri) \<Rightarrow>
          if priority (pairs q ! ri) > priority (pairs q ! c)
          then pushDownIndex (swapDown q c ri) ri else q)"
proof (cases "int c < firstLeafIndex q")
  case True
  then show ?thesis by (simp add: pushDownIndex.simps [of q c])
next
  case False
  from no_children_after_firstLeaf [OF False d]
  have "highestPriorityChild q c = None" by (simp add: highestPriorityChild_None)
  with False show ?thesis by (simp add: pushDownIndex.simps [of q c])
qed

section \<open>What the two loops do to the slice\<close>

lemma getParentIndex_sizeD: "sizeD q' = sizeD q \<Longrightarrow> getParentIndex q' i = getParentIndex q i"
  by (simp add: getParentIndex_nat)

text \<open>
  The loop of bubbleUpIndex, started with the hole at \<open>h\<close>: it stops with the hole at a
  position whose parent (if it has one) is not strictly lower than the saved pair; no
  position above the first hole is written; and if the hole has moved, the first hole
  holds the pair of its parent, which was strictly lower.
\<close>

lemma bubbleUpLoop_stop:
  "h < length (pairs q) \<Longrightarrow>
   snd (bubbleUpLoop q c h) \<le> h \<and>
   (snd (bubbleUpLoop q c h) = 0 \<or>
    \<not> priority (pairs (fst (bubbleUpLoop q c h)) ! getParentIndex q (snd (bubbleUpLoop q c h)))
        < priority c) \<and>
   sizeD (fst (bubbleUpLoop q c h)) = sizeD q \<and>
   length (pairs (fst (bubbleUpLoop q c h))) = length (pairs q) \<and>
   (\<forall>k. h < k \<longrightarrow> pairs (fst (bubbleUpLoop q c h)) ! k = pairs q ! k) \<and>
   (snd (bubbleUpLoop q c h) < h \<longrightarrow>
      pairs (fst (bubbleUpLoop q c h)) ! h = pairs q ! getParentIndex q h \<and>
      priority (pairs q ! getParentIndex q h) < priority c)"
proof (induction q c h rule: bubbleUpLoop.induct)
  case (1 q current index)
  note unfold = bubbleUpLoop.simps [of q current index]
  let ?p = "getParentIndex q index"
  show ?case
  proof (cases "index > 0 \<and> priority (pairs q ! ?p) < priority current")
    case False
    then have "bubbleUpLoop q current index = (q, index)"
      by (auto simp: unfold Let_def)
    with False show ?thesis by auto
  next
    case True
    let ?q2 = "q\<lparr>pairs := (pairs q)[index := pairs q ! ?p],
                  indexMap := (indexMap q)(val (pairs q ! ?p) \<mapsto> index)\<rparr>"
    let ?r = "bubbleUpLoop ?q2 current ?p"
    from True have c1: "0 < index" and c2: "priority (pairs q ! ?p) < priority current" by simp_all
    from c1 have lt: "?p < index" by (rule getParentIndex_less)
    from True "1.prems" have eq: "bubbleUpLoop q current index = ?r"
      by (simp add: unfold Let_def)
    have len2: "?p < length (pairs ?q2)" using lt "1.prems" by simp
    have gp: "getParentIndex ?q2 k = getParentIndex q k" for k
      by (rule getParentIndex_sizeD) simp
    have ih: "snd ?r \<le> ?p \<and>
       (snd ?r = 0 \<or> \<not> priority (pairs (fst ?r) ! getParentIndex ?q2 (snd ?r)) < priority current) \<and>
       sizeD (fst ?r) = sizeD ?q2 \<and>
       length (pairs (fst ?r)) = length (pairs ?q2) \<and>
       (\<forall>k. ?p < k \<longrightarrow> pairs (fst ?r) ! k = pairs ?q2 ! k)"
      using "1.IH" [OF c1 refl c2 refl refl] len2 "1.prems" by (simp add: Let_def)
    from ih lt have a: "snd ?r \<le> index" "snd ?r < index" by simp_all
    from ih have b: "snd ?r = 0 \<or>
        \<not> priority (pairs (fst ?r) ! getParentIndex q (snd ?r)) < priority current"
      by (simp add: gp)
    from ih have c: "sizeD (fst ?r) = sizeD q" "length (pairs (fst ?r)) = length (pairs q)"
      by simp_all
    have d: "pairs (fst ?r) ! k = pairs q ! k" if "index < k" for k
    proof -
      from that lt have "?p < k" "k \<noteq> index" by simp_all
      with ih show ?thesis by simp
    qed
    from ih lt "1.prems" have e: "pairs (fst ?r) ! index = pairs q ! ?p" by simp
    from a b c d e c2 show ?thesis unfolding eq by blast
  qed
qed

lemma bubbleUpIndex_spec:
  assumes i: "i < length (pairs q)"
  shows "\<exists>h \<le> i.
           pairs (bubbleUpIndex q i) ! h = pairs q ! i \<and>
           indexMap (bubbleUpIndex q i) (val (pairs q ! i)) = Some h \<and>
           (h = 0 \<or> \<not> priority (pairs (bubbleUpIndex q i) ! getParentIndex q h)
                        < priority (pairs q ! i)) \<and>
           (h < i \<longrightarrow> pairs (bubbleUpIndex q i) ! i = pairs q ! getParentIndex q i \<and>
                      priority (pairs q ! getParentIndex q i) < priority (pairs q ! i)) \<and>
           (\<forall>k. i < k \<longrightarrow> pairs (bubbleUpIndex q i) ! k = pairs q ! k)"
proof -
  let ?c = "pairs q ! i"
  let ?r = "bubbleUpLoop q ?c i"
  let ?h = "snd ?r"
  let ?R = "bubbleUpIndex q i"
  note st = bubbleUpLoop_stop [OF i, of ?c]
  from st have hi: "?h \<le> i" and len: "length (pairs (fst ?r)) = length (pairs q)" by simp_all
  with i have hl: "?h < length (pairs (fst ?r))" by simp
  have R: "pairs ?R = (pairs (fst ?r))[?h := ?c]" "indexMap ?R (val ?c) = Some ?h"
    by (simp_all add: bubbleUpIndex_placeCurrent)
  from hl have a: "pairs ?R ! ?h = ?c" by (simp add: R)
  have b: "?h = 0 \<or> \<not> priority (pairs ?R ! getParentIndex q ?h) < priority ?c"
  proof (cases "?h = 0")
    case False
    then have "getParentIndex q ?h < ?h" by (simp add: getParentIndex_less)
    then have "pairs ?R ! getParentIndex q ?h = pairs (fst ?r) ! getParentIndex q ?h"
      by (simp add: R)
    with st False show ?thesis by simp
  qed simp
  have c: "?h < i \<longrightarrow> pairs ?R ! i = pairs q ! getParentIndex q i \<and>
                      priority (pairs q ! getParentIndex q i) < priority ?c"
    using st by (simp add: R)
  have d: "\<forall>k. i < k \<longrightarrow> pairs ?R ! k = pairs q ! k"
    using st hi by (simp add: R)
  from hi a R(2) b c d show ?thesis by blast
qed

lemma swapDown_explicit:
  assumes "c < length (pairs q)" "ri < length (pairs q)" "c \<noteq> ri"
  shows "swapDown q c ri =
     q\<lparr>pairs := (pairs q)[c := pairs q ! ri, ri := pairs q ! c],
       indexMap := (indexMap q)(val (pairs q ! ri) \<mapsto> c, val (pairs q ! c) \<mapsto> ri)\<rparr>"
  using assms by (simp add: swapDown_def Let_def)

text \<open>
  The loop of pushDownIndex, started at \<open>c\<close>: the pair that was at \<open>c\<close> ends at a position
  \<open>f\<close> at or below \<open>c\<close>, none of whose children is strictly higher; and if it has moved, the
  position \<open>c\<close> holds the pair of the child chosen by highestPriorityChild, which was
  strictly higher.
\<close>

lemma pushDownIndex_spec:
  assumes d: "0 < sizeD q"
  shows "c < length (pairs q) \<Longrightarrow>
     \<exists>f. c \<le> f \<and> f < length (pairs q) \<and>
         pairs (pushDownIndex q c) ! f = pairs q ! c \<and>
         (\<forall>j. f * sizeD q + 1 \<le> j \<and> j \<le> f * sizeD q + sizeD q \<and> j < length (pairs q)
              \<longrightarrow> priority (pairs (pushDownIndex q c) ! j) \<le> priority (pairs q ! c)) \<and>
         (c < f \<longrightarrow> (\<exists>r ri. highestPriorityChild q c = Some (r, ri) \<and>
                          priority (pairs q ! c) < priority (pairs q ! ri) \<and>
                          pairs (pushDownIndex q c) ! c = pairs q ! ri)) \<and>
         (\<forall>k < c. pairs (pushDownIndex q c) ! k = pairs q ! k)"
  using d
proof (induction q c rule: pushDownIndex.induct)
  case (1 q currentIndex)
  note unfold = pushDownIndex.simps [of q currentIndex]
  note d = \<open>0 < sizeD q\<close>
  note cl = \<open>currentIndex < length (pairs q)\<close>
  let ?d = "sizeD q"
  have stay: ?case
    if eq: "pushDownIndex q currentIndex = q"
      and ch: "\<forall>j. currentIndex * ?d + 1 \<le> j \<and> j \<le> currentIndex * ?d + ?d \<and> j < length (pairs q)
                 \<longrightarrow> priority (pairs q ! j) \<le> priority (pairs q ! currentIndex)"
  proof -
    show ?thesis unfolding eq
      by (intro exI [of _ currentIndex]) (use cl ch in simp)
  qed
  show ?case
  proof (cases "int currentIndex < firstLeafIndex q")
    case False
    then have eq: "pushDownIndex q currentIndex = q" by (simp add: unfold)
    from no_children_after_firstLeaf [OF False d]
    have "\<forall>j. currentIndex * ?d + 1 \<le> j \<and> j \<le> currentIndex * ?d + ?d \<and> j < length (pairs q)
                 \<longrightarrow> priority (pairs q ! j) \<le> priority (pairs q ! currentIndex)"
      by auto
    with eq show ?thesis by (rule stay)
  next
    case guard: True
    show ?thesis
    proof (cases "highestPriorityChild q currentIndex")
      case None
      with guard have eq: "pushDownIndex q currentIndex = q" by (simp add: unfold)
      from None have "length (pairs q) \<le> currentIndex * ?d + 1"
        by (simp add: highestPriorityChild_None)
      then have "\<forall>j. currentIndex * ?d + 1 \<le> j \<and> j \<le> currentIndex * ?d + ?d \<and> j < length (pairs q)
                 \<longrightarrow> priority (pairs q ! j) \<le> priority (pairs q ! currentIndex)"
        by auto
      with eq show ?thesis by (rule stay)
    next
      case (Some bc)
      obtain best childIndex where "bc = (best, childIndex)" by (cases bc)
      with Some have h: "highestPriorityChild q currentIndex = Some (best, childIndex)" by simp
      from pushDown_child_greater [OF guard h] highestPriorityChild_range [OF h]
      have rng: "currentIndex < childIndex" "childIndex < length (pairs q)" by simp_all
      note best = highestPriorityChild_best [OF h d]
      show ?thesis
      proof (cases "priority (pairs q ! childIndex) > priority (pairs q ! currentIndex)")
        case False
        with guard h have eq: "pushDownIndex q currentIndex = q" by (simp add: unfold)
        from False have le: "priority (pairs q ! childIndex) \<le> priority (pairs q ! currentIndex)"
          by simp
        have "\<forall>j. currentIndex * ?d + 1 \<le> j \<and> j \<le> currentIndex * ?d + ?d \<and> j < length (pairs q)
                 \<longrightarrow> priority (pairs q ! j) \<le> priority (pairs q ! currentIndex)"
        proof (intro allI impI)
          fix j assume "currentIndex * ?d + 1 \<le> j \<and> j \<le> currentIndex * ?d + ?d \<and> j < length (pairs q)"
          with best have "priority (pairs q ! j) \<le> priority (pairs q ! childIndex)" by blast
          with le show "priority (pairs q ! j) \<le> priority (pairs q ! currentIndex)" by simp
        qed
        with eq show ?thesis by (rule stay)
      next
        case True
        let ?q' = "swapDown q currentIndex childIndex"
        from True guard h have eq: "pushDownIndex q currentIndex = pushDownIndex ?q' childIndex"
          by (simp add: unfold)
        have cl': "childIndex < length (pairs ?q')" using rng by simp
        have d': "0 < sizeD ?q'" using d by simp
        from "1.IH" [OF guard h refl True cl' d']
        obtain f where F: "childIndex \<le> f \<and> f < length (pairs ?q') \<and>
            pairs (pushDownIndex ?q' childIndex) ! f = pairs ?q' ! childIndex \<and>
            (\<forall>j. f * sizeD ?q' + 1 \<le> j \<and> j \<le> f * sizeD ?q' + sizeD ?q' \<and> j < length (pairs ?q')
              \<longrightarrow> priority (pairs (pushDownIndex ?q' childIndex) ! j) \<le> priority (pairs ?q' ! childIndex)) \<and>
            (childIndex < f \<longrightarrow> (\<exists>r ri. highestPriorityChild ?q' childIndex = Some (r, ri) \<and>
                          priority (pairs ?q' ! childIndex) < priority (pairs ?q' ! ri) \<and>
                          pairs (pushDownIndex ?q' childIndex) ! childIndex = pairs ?q' ! ri)) \<and>
            (\<forall>k < childIndex. pairs (pushDownIndex ?q' childIndex) ! k = pairs ?q' ! k)"
          by (rule exE)
        from F have f: "childIndex \<le> f" "f < length (pairs ?q')"
            "pairs (pushDownIndex ?q' childIndex) ! f = pairs ?q' ! childIndex"
            "\<forall>j. f * sizeD ?q' + 1 \<le> j \<and> j \<le> f * sizeD ?q' + sizeD ?q' \<and> j < length (pairs ?q')
              \<longrightarrow> priority (pairs (pushDownIndex ?q' childIndex) ! j) \<le> priority (pairs ?q' ! childIndex)"
            "\<forall>k < childIndex. pairs (pushDownIndex ?q' childIndex) ! k = pairs ?q' ! k"
          by blast+
        from rng cl have sw: "pairs ?q' ! childIndex = pairs q ! currentIndex"
            "pairs ?q' ! currentIndex = pairs q ! childIndex"
          by simp_all
        have sd: "sizeD ?q' = ?d" and ln: "length (pairs ?q') = length (pairs q)" by simp_all
        have below: "pairs ?q' ! k = pairs q ! k" if "k < currentIndex" for k
          using that rng by simp
        from f(1) rng have a: "currentIndex \<le> f" "currentIndex < f" by simp_all
        from f(2) have b: "f < length (pairs q)" unfolding ln .
        from f(3) have c: "pairs (pushDownIndex q currentIndex) ! f = pairs q ! currentIndex"
          unfolding eq sw(1) .
        from f(4) have e: "\<forall>j. f * ?d + 1 \<le> j \<and> j \<le> f * ?d + ?d \<and> j < length (pairs q)
              \<longrightarrow> priority (pairs (pushDownIndex q currentIndex) ! j) \<le> priority (pairs q ! currentIndex)"
          unfolding eq sw(1) sd ln .
        from f(5) rng(1) have "pairs (pushDownIndex ?q' childIndex) ! currentIndex = pairs ?q' ! currentIndex"
          by blast
        then have g: "pairs (pushDownIndex q currentIndex) ! currentIndex = pairs q ! childIndex"
          unfolding eq sw(2) .
        have i: "\<forall>k < currentIndex. pairs (pushDownIndex q currentIndex) ! k = pairs q ! k"
        proof (intro allI impI)
          fix k assume k: "k < currentIndex"
          with rng(1) have "k < childIndex" by simp
          with f(5) have "pairs (pushDownIndex ?q' childIndex) ! k = pairs ?q' ! k" by blast
          with below [OF k] show "pairs (pushDownIndex q currentIndex) ! k = pairs q ! k"
            unfolding eq by simp
        qed
        from h True g have m: "\<exists>r ri. highestPriorityChild q currentIndex = Some (r, ri) \<and>
                          priority (pairs q ! currentIndex) < priority (pairs q ! ri) \<and>
                          pairs (pushDownIndex q currentIndex) ! currentIndex = pairs q ! ri"
          by blast
        from a b c e m i show ?thesis by (intro exI [of _ f]) simp
      qed
    qed
  qed
qed

lemma firstLeafIndex_small: "length (pairs q) < 2 \<Longrightarrow> firstLeafIndex q \<le> 1"
proof -
  assume "length (pairs q) < 2"
  then have "int (length (pairs q)) - 2 < 0" by simp
  then have "go_div (int (length (pairs q)) - 2) (int (sizeD q)) \<le> 0"
    by (simp add: go_div_def sgn_if mult_le_0_iff pos_imp_zdiv_nonneg_iff)
  then show ?thesis by (simp add: firstLeafIndex_def)
qed

text \<open>
  Inside the loop of pushDownIndex the positions that highestPriorityChild computes stay
  small: \<open>currentIndex * d + d\<close> is at most \<open>d\<close> or twice the length of the slice, so Go's
  integers do not wrap there.
\<close>

lemma guard_range:
  assumes d: "0 < sizeD q" and g: "int c < firstLeafIndex q"
  shows "c * sizeD q + sizeD q \<le> max (sizeD q) (2 * length (pairs q))"
proof (cases "2 \<le> length (pairs q)")
  case False
  then have "firstLeafIndex q \<le> 1" by (simp add: firstLeafIndex_small)
  with g have "c = 0" by simp
  then show ?thesis by simp
next
  case True
  let ?m = "length (pairs q) - 2"
  from g have "c \<le> ?m div sizeD q"
    unfolding firstLeafIndex_nat [OF True] by linarith
  then have "c * sizeD q \<le> (?m div sizeD q) * sizeD q" by (rule mult_le_mono1)
  also have "\<dots> \<le> ?m" by simp
  finally have le: "c * sizeD q \<le> ?m" .
  show ?thesis
  proof (cases "c = 0")
    case True
    then show ?thesis by simp
  next
    case False
    then have "1 \<le> c" by simp
    then have "1 * sizeD q \<le> c * sizeD q" by (rule mult_le_mono1)
    then have "sizeD q \<le> c * sizeD q" by (simp only: mult_1)
    with le have "c * sizeD q + sizeD q \<le> 2 * ?m" by linarith
    then show ?thesis by linarith
  qed
qed

lemma rootLast_eq:
  assumes "2 \<le> length (pairs q)"
  shows "rootLast q =
     q\<lparr>pairs := (butlast (pairs q))[0 := last (pairs q)],
       indexMap := (indexMap q)(val (last (pairs q)) \<mapsto> 0)\<rparr>"
proof -
  from assms have "pairs q \<noteq> []" by auto
  then have "pairs q ! (length (pairs q) - 1) = last (pairs q)"
    by (simp add: last_conv_nth)
  then show ?thesis
    by (simp add: rootLast_def butlast_conv_take)
qed

lemma mset_move_last:
  assumes "Suc i < length ps"
  shows "add_mset (ps ! i) (mset ((butlast ps)[i := last ps])) = mset ps"
proof -
  from assms have ne: "ps \<noteq> []" and ib: "i < length (butlast ps)" by auto
  from ib have nb: "butlast ps ! i = ps ! i" by (simp add: nth_butlast)
  from ib have mem: "ps ! i \<in># mset (butlast ps)"
    using nth_mem [of i "butlast ps"] nb by simp
  have "mset ((butlast ps)[i := last ps]) = add_mset (last ps) (mset (butlast ps) - {#ps ! i#})"
    using ib by (simp add: mset_update nb)
  then have "add_mset (ps ! i) (mset ((butlast ps)[i := last ps]))
      = add_mset (last ps) (add_mset (ps ! i) (mset (butlast ps) - {#ps ! i#}))"
    by simp
  also have "\<dots> = add_mset (last ps) (mset (butlast ps))"
    using mem by simp
  also have "\<dots> = mset (butlast ps @ [last ps])" by simp
  also have "\<dots> = mset ps" using ne by simp
  finally show ?thesis .
qed

definition scenario_four :: "(int, string) PriorityQueue" where
  "scenario_four = Insert scenario_inserted ''D'' 3"

definition scenario_four_rooted :: "(int, string) PriorityQueue" where
  "scenario_four_rooted =
     scenario_four\<lparr>pairs := (butlast (pairs scenario_four))[0 := last (pairs scenario_four)],
                   indexMap := (indexMap scenario_four)(val (last (pairs scenario_four)) \<mapsto> 0)\<rparr>"

text \<open>
  C8. With at least one child per node (\<open>d > 0\<close>; the constructor gives \<open>d \<ge> 2\<close>).
  In an iteration of the loop of pushDownIndex, that is for a position \<open>c\<close> below
  firstLeafIndex: highestPriorityChild finds no child exactly when the first child position
  \<open>c * d + 1\<close> is outside the slice, and the loop stops; otherwise it returns a position
  among the children of \<open>c\<close> whose priority is the highest of the children and strictly
  higher than that of every child before it (the lowest index among ties). If that child is
  strictly higher than the entry at \<open>c\<close>, the two positions exchange their pairs, the index
  entries of the two values are set to their new positions, and the loop goes on from the
  child's position; if not, the loop stops and nothing is changed. At or after
  firstLeafIndex a position has no child and nothing is changed. As a whole, pushDownIndex
  from \<open>c\<close> permutes the slice, leaves the pair that was at \<open>c\<close> at a position \<open>f\<close> at or
  below \<open>c\<close> none of whose children is strictly higher, and, if the pair has moved, puts the
  chosen, strictly higher child at \<open>c\<close>. Top, on a queue of two pairs or more, returns the
  root, moves the last pair to the root, runs this from position 0 and deletes the index
  entry of the returned value.
\<close>

theorem C8_push_down:
  assumes "0 < sizeD q"
  shows "(int c < firstLeafIndex q \<longrightarrow>
            c * sizeD q + sizeD q \<le> max (sizeD q) (2 * length (pairs q)) \<and>
            (highestPriorityChild q c = None \<longleftrightarrow> length (pairs q) \<le> c * sizeD q + 1) \<and>
            (highestPriorityChild q c = None \<longrightarrow> pushDownIndex q c = q) \<and>
            (\<forall>r ri. highestPriorityChild q c = Some (r, ri) \<longrightarrow>
               r = pairs q ! ri \<and>
               c * sizeD q + 1 \<le> ri \<and> ri \<le> c * sizeD q + sizeD q \<and> ri < length (pairs q) \<and>
               (\<forall>j. c * sizeD q + 1 \<le> j \<and> j \<le> c * sizeD q + sizeD q \<and> j < length (pairs q)
                    \<longrightarrow> priority (pairs q ! j) \<le> priority (pairs q ! ri)) \<and>
               (\<forall>j. c * sizeD q + 1 \<le> j \<and> j < ri
                    \<longrightarrow> priority (pairs q ! j) < priority (pairs q ! ri)) \<and>
               pushDownIndex q c =
                 (if priority (pairs q ! ri) > priority (pairs q ! c)
                  then pushDownIndex
                         (q\<lparr>pairs := (pairs q)[c := pairs q ! ri, ri := pairs q ! c],
                            indexMap := (indexMap q)(val (pairs q ! ri) \<mapsto> c,
                                                     val (pairs q ! c) \<mapsto> ri)\<rparr>) ri
                  else q))) \<and>
         (\<not> int c < firstLeafIndex q \<longrightarrow>
            length (pairs q) \<le> c * sizeD q + 1 \<and> pushDownIndex q c = q) \<and>
         (c < length (pairs q) \<longrightarrow>
            (\<exists>f. c \<le> f \<and> f < length (pairs q) \<and>
                 pairs (pushDownIndex q c) ! f = pairs q ! c \<and>
                 (\<forall>j. f * sizeD q + 1 \<le> j \<and> j \<le> f * sizeD q + sizeD q \<and> j < length (pairs q)
                      \<longrightarrow> priority (pairs (pushDownIndex q c) ! j) \<le> priority (pairs q ! c)) \<and>
                 (c < f \<longrightarrow> (\<exists>r ri. highestPriorityChild q c = Some (r, ri) \<and>
                                  priority (pairs q ! c) < priority (pairs q ! ri) \<and>
                                  pairs (pushDownIndex q c) ! c = pairs q ! ri)) \<and>
                 (\<forall>k < c. pairs (pushDownIndex q c) ! k = pairs q ! k))) \<and>
         length (pairs (pushDownIndex q c)) = length (pairs q) \<and>
         mset (pairs (pushDownIndex q c)) = mset (pairs q) \<and>
         (2 \<le> length (pairs q) \<longrightarrow>
            (let rooted = q\<lparr>pairs := (butlast (pairs q))[0 := last (pairs q)],
                            indexMap := (indexMap q)(val (last (pairs q)) \<mapsto> 0)\<rparr>;
                 pushed = pushDownIndex rooted 0
             in Top q = (Inr (pairs q ! 0),
                         pushed\<lparr>indexMap := (indexMap pushed)(val (pairs q ! 0) := None)\<rparr>)))"
proof -
  note d = assms
  have A: "int c < firstLeafIndex q \<longrightarrow>
            c * sizeD q + sizeD q \<le> max (sizeD q) (2 * length (pairs q)) \<and>
            (highestPriorityChild q c = None \<longleftrightarrow> length (pairs q) \<le> c * sizeD q + 1) \<and>
            (highestPriorityChild q c = None \<longrightarrow> pushDownIndex q c = q) \<and>
            (\<forall>r ri. highestPriorityChild q c = Some (r, ri) \<longrightarrow>
               r = pairs q ! ri \<and>
               c * sizeD q + 1 \<le> ri \<and> ri \<le> c * sizeD q + sizeD q \<and> ri < length (pairs q) \<and>
               (\<forall>j. c * sizeD q + 1 \<le> j \<and> j \<le> c * sizeD q + sizeD q \<and> j < length (pairs q)
                    \<longrightarrow> priority (pairs q ! j) \<le> priority (pairs q ! ri)) \<and>
               (\<forall>j. c * sizeD q + 1 \<le> j \<and> j < ri
                    \<longrightarrow> priority (pairs q ! j) < priority (pairs q ! ri)) \<and>
               pushDownIndex q c =
                 (if priority (pairs q ! ri) > priority (pairs q ! c)
                  then pushDownIndex
                         (q\<lparr>pairs := (pairs q)[c := pairs q ! ri, ri := pairs q ! c],
                            indexMap := (indexMap q)(val (pairs q ! ri) \<mapsto> c,
                                                     val (pairs q ! c) \<mapsto> ri)\<rparr>) ri
                  else q))"
  proof
    assume g: "int c < firstLeafIndex q"
    have a1: "c * sizeD q + sizeD q \<le> max (sizeD q) (2 * length (pairs q))"
      using d g by (rule guard_range)
    have a2: "highestPriorityChild q c = None \<longleftrightarrow> length (pairs q) \<le> c * sizeD q + 1"
      by (rule highestPriorityChild_None)
    have a3: "highestPriorityChild q c = None \<longrightarrow> pushDownIndex q c = q"
      by (simp add: pushDownIndex_step [OF d])
    have a4: "\<forall>r ri. highestPriorityChild q c = Some (r, ri) \<longrightarrow>
               r = pairs q ! ri \<and>
               c * sizeD q + 1 \<le> ri \<and> ri \<le> c * sizeD q + sizeD q \<and> ri < length (pairs q) \<and>
               (\<forall>j. c * sizeD q + 1 \<le> j \<and> j \<le> c * sizeD q + sizeD q \<and> j < length (pairs q)
                    \<longrightarrow> priority (pairs q ! j) \<le> priority (pairs q ! ri)) \<and>
               (\<forall>j. c * sizeD q + 1 \<le> j \<and> j < ri
                    \<longrightarrow> priority (pairs q ! j) < priority (pairs q ! ri)) \<and>
               pushDownIndex q c =
                 (if priority (pairs q ! ri) > priority (pairs q ! c)
                  then pushDownIndex
                         (q\<lparr>pairs := (pairs q)[c := pairs q ! ri, ri := pairs q ! c],
                            indexMap := (indexMap q)(val (pairs q ! ri) \<mapsto> c,
                                                     val (pairs q ! c) \<mapsto> ri)\<rparr>) ri
                  else q)"
    proof (intro allI impI)
      fix r ri assume h: "highestPriorityChild q c = Some (r, ri)"
      from pushDown_child_greater [OF g h] highestPriorityChild_range [OF h]
      have rng: "c < ri" "ri < length (pairs q)" "c * sizeD q + 1 \<le> ri" by simp_all
      then have cl: "c < length (pairs q)" "c \<noteq> ri" by simp_all
      have step: "pushDownIndex q c =
                 (if priority (pairs q ! ri) > priority (pairs q ! c)
                  then pushDownIndex
                         (q\<lparr>pairs := (pairs q)[c := pairs q ! ri, ri := pairs q ! c],
                            indexMap := (indexMap q)(val (pairs q ! ri) \<mapsto> c,
                                                     val (pairs q ! c) \<mapsto> ri)\<rparr>) ri
                  else q)"
        using h by (simp add: pushDownIndex_step [OF d] swapDown_explicit [OF cl(1) rng(2) cl(2)])
      from highestPriorityChild_best [OF h d] rng highestPriorityChild_upper [OF h d] step
      show "r = pairs q ! ri \<and>
               c * sizeD q + 1 \<le> ri \<and> ri \<le> c * sizeD q + sizeD q \<and> ri < length (pairs q) \<and>
               (\<forall>j. c * sizeD q + 1 \<le> j \<and> j \<le> c * sizeD q + sizeD q \<and> j < length (pairs q)
                    \<longrightarrow> priority (pairs q ! j) \<le> priority (pairs q ! ri)) \<and>
               (\<forall>j. c * sizeD q + 1 \<le> j \<and> j < ri
                    \<longrightarrow> priority (pairs q ! j) < priority (pairs q ! ri)) \<and>
               pushDownIndex q c =
                 (if priority (pairs q ! ri) > priority (pairs q ! c)
                  then pushDownIndex
                         (q\<lparr>pairs := (pairs q)[c := pairs q ! ri, ri := pairs q ! c],
                            indexMap := (indexMap q)(val (pairs q ! ri) \<mapsto> c,
                                                     val (pairs q ! c) \<mapsto> ri)\<rparr>) ri
                  else q)"
        by (intro conjI) blast+
    qed
    from a1 a2 a3 a4 show "c * sizeD q + sizeD q \<le> max (sizeD q) (2 * length (pairs q)) \<and>
            (highestPriorityChild q c = None \<longleftrightarrow> length (pairs q) \<le> c * sizeD q + 1) \<and>
            (highestPriorityChild q c = None \<longrightarrow> pushDownIndex q c = q) \<and>
            (\<forall>r ri. highestPriorityChild q c = Some (r, ri) \<longrightarrow>
               r = pairs q ! ri \<and>
               c * sizeD q + 1 \<le> ri \<and> ri \<le> c * sizeD q + sizeD q \<and> ri < length (pairs q) \<and>
               (\<forall>j. c * sizeD q + 1 \<le> j \<and> j \<le> c * sizeD q + sizeD q \<and> j < length (pairs q)
                    \<longrightarrow> priority (pairs q ! j) \<le> priority (pairs q ! ri)) \<and>
               (\<forall>j. c * sizeD q + 1 \<le> j \<and> j < ri
                    \<longrightarrow> priority (pairs q ! j) < priority (pairs q ! ri)) \<and>
               pushDownIndex q c =
                 (if priority (pairs q ! ri) > priority (pairs q ! c)
                  then pushDownIndex
                         (q\<lparr>pairs := (pairs q)[c := pairs q ! ri, ri := pairs q ! c],
                            indexMap := (indexMap q)(val (pairs q ! ri) \<mapsto> c,
                                                     val (pairs q ! c) \<mapsto> ri)\<rparr>) ri
                  else q))"
      by (intro conjI)
  qed
  have B: "\<not> int c < firstLeafIndex q \<longrightarrow>
            length (pairs q) \<le> c * sizeD q + 1 \<and> pushDownIndex q c = q"
    using no_children_after_firstLeaf [of c q] d
    by (simp add: pushDownIndex.simps [of q c])
  have C: "c < length (pairs q) \<longrightarrow>
            (\<exists>f. c \<le> f \<and> f < length (pairs q) \<and>
                 pairs (pushDownIndex q c) ! f = pairs q ! c \<and>
                 (\<forall>j. f * sizeD q + 1 \<le> j \<and> j \<le> f * sizeD q + sizeD q \<and> j < length (pairs q)
                      \<longrightarrow> priority (pairs (pushDownIndex q c) ! j) \<le> priority (pairs q ! c)) \<and>
                 (c < f \<longrightarrow> (\<exists>r ri. highestPriorityChild q c = Some (r, ri) \<and>
                                  priority (pairs q ! c) < priority (pairs q ! ri) \<and>
                                  pairs (pushDownIndex q c) ! c = pairs q ! ri)) \<and>
                 (\<forall>k < c. pairs (pushDownIndex q c) ! k = pairs q ! k))"
    using pushDownIndex_spec [OF d, of c] by (intro impI)
  have D: "length (pairs (pushDownIndex q c)) = length (pairs q)"
    by (rule length_pushDownIndex)
  have E: "mset (pairs (pushDownIndex q c)) = mset (pairs q)"
    by (rule mset_pushDownIndex)
  have F: "2 \<le> length (pairs q) \<longrightarrow>
            (let rooted = q\<lparr>pairs := (butlast (pairs q))[0 := last (pairs q)],
                            indexMap := (indexMap q)(val (last (pairs q)) \<mapsto> 0)\<rparr>;
                 pushed = pushDownIndex rooted 0
             in Top q = (Inr (pairs q ! 0),
                         pushed\<lparr>indexMap := (indexMap pushed)(val (pairs q ! 0) := None)\<rparr>))"
  proof
    assume n: "2 \<le> length (pairs q)"
    show "let rooted = q\<lparr>pairs := (butlast (pairs q))[0 := last (pairs q)],
                            indexMap := (indexMap q)(val (last (pairs q)) \<mapsto> 0)\<rparr>;
                 pushed = pushDownIndex rooted 0
             in Top q = (Inr (pairs q ! 0),
                         pushed\<lparr>indexMap := (indexMap pushed)(val (pairs q ! 0) := None)\<rparr>)"
      unfolding Let_def rootLast_eq [OF n, symmetric] by (rule Top_many [OF n])
  qed
  from A B C D E F show ?thesis by (intro conjI)
qed

theorem C8_push_down_witness:
  "0 < sizeD scenario_four_rooted \<and>
   pairs scenario_four_rooted =
     [\<lparr>priority = 3, val = ''D''\<rparr>, \<lparr>priority = 5, val = ''B''\<rparr>, \<lparr>priority = 8, val = ''C''\<rparr>] \<and>
   int 0 < firstLeafIndex scenario_four_rooted \<and>
   highestPriorityChild scenario_four_rooted 0 = Some (\<lparr>priority = 8, val = ''C''\<rparr>, 2) \<and>
   priority (pairs scenario_four_rooted ! 0) < priority (pairs scenario_four_rooted ! 2) \<and>
   pushDownIndex scenario_four_rooted 0 =
     pushDownIndex
       (scenario_four_rooted
          \<lparr>pairs := (pairs scenario_four_rooted)
                      [0 := pairs scenario_four_rooted ! 2, 2 := pairs scenario_four_rooted ! 0],
           indexMap := (indexMap scenario_four_rooted)
                         (val (pairs scenario_four_rooted ! 2) \<mapsto> 0,
                          val (pairs scenario_four_rooted ! 0) \<mapsto> 2)\<rparr>) 2 \<and>
   pairs (pushDownIndex scenario_four_rooted 0) =
     [\<lparr>priority = 8, val = ''C''\<rparr>, \<lparr>priority = 5, val = ''B''\<rparr>, \<lparr>priority = 3, val = ''D''\<rparr>] \<and>
   fst (Top scenario_four) = Inr \<lparr>priority = 10, val = ''A''\<rparr> \<and>
   pairs (snd (Top scenario_four)) =
     [\<lparr>priority = 8, val = ''C''\<rparr>, \<lparr>priority = 5, val = ''B''\<rparr>, \<lparr>priority = 3, val = ''D''\<rparr>]"
proof -
  have d: "0 < sizeD scenario_four_rooted" by code_simp
  have ps: "pairs scenario_four_rooted =
     [\<lparr>priority = 3, val = ''D''\<rparr>, \<lparr>priority = 5, val = ''B''\<rparr>, \<lparr>priority = 8, val = ''C''\<rparr>]"
    by code_simp
  have g: "int 0 < firstLeafIndex scenario_four_rooted" by code_simp
  have h: "highestPriorityChild scenario_four_rooted 0 = Some (\<lparr>priority = 8, val = ''C''\<rparr>, 2)"
    by code_simp
  have gt: "priority (pairs scenario_four_rooted ! 0) < priority (pairs scenario_four_rooted ! 2)"
    by code_simp
  have res: "pairs (pushDownIndex scenario_four_rooted 0) =
     [\<lparr>priority = 8, val = ''C''\<rparr>, \<lparr>priority = 5, val = ''B''\<rparr>, \<lparr>priority = 3, val = ''D''\<rparr>]"
    by code_simp
  have t1: "fst (Top scenario_four) = Inr \<lparr>priority = 10, val = ''A''\<rparr>" by code_simp
  have t2: "pairs (snd (Top scenario_four)) =
     [\<lparr>priority = 8, val = ''C''\<rparr>, \<lparr>priority = 5, val = ''B''\<rparr>, \<lparr>priority = 3, val = ''D''\<rparr>]"
    by code_simp
  from C8_push_down [OF d, of 0] g h
  have "pushDownIndex scenario_four_rooted 0 =
      (if priority (pairs scenario_four_rooted ! 2) > priority (pairs scenario_four_rooted ! 0)
       then pushDownIndex
         (scenario_four_rooted
          \<lparr>pairs := (pairs scenario_four_rooted)
                      [0 := pairs scenario_four_rooted ! 2, 2 := pairs scenario_four_rooted ! 0],
           indexMap := (indexMap scenario_four_rooted)
                         (val (pairs scenario_four_rooted ! 2) \<mapsto> 0,
                          val (pairs scenario_four_rooted ! 0) \<mapsto> 2)\<rparr>) 2
       else scenario_four_rooted)"
    by blast
  with gt have step: "pushDownIndex scenario_four_rooted 0 =
     pushDownIndex
       (scenario_four_rooted
          \<lparr>pairs := (pairs scenario_four_rooted)
                      [0 := pairs scenario_four_rooted ! 2, 2 := pairs scenario_four_rooted ! 0],
           indexMap := (indexMap scenario_four_rooted)
                         (val (pairs scenario_four_rooted ! 2) \<mapsto> 0,
                          val (pairs scenario_four_rooted ! 0) \<mapsto> 2)\<rparr>) 2"
    by (simp only: if_True)
  from d ps g h gt step res t1 t2 show ?thesis by (intro conjI)
qed

section \<open>Insert of a value that is already stored\<close>

lemma mset_nth_other:
  assumes m: "mset xs = add_mset (xs ! j) M" and j: "j < length xs" and y: "y \<in># M"
  shows "\<exists>k < length xs. k \<noteq> j \<and> xs ! k = y"
proof -
  from j have "xs = take j xs @ xs ! j # drop (Suc j) xs" by (rule id_take_nth_drop)
  then have "mset xs = add_mset (xs ! j) (mset (take j xs) + mset (drop (Suc j) xs))"
    by (metis mset.simps(2) mset_append union_mset_add_mset_right)
  with m have "M = mset (take j xs) + mset (drop (Suc j) xs)" by simp
  with y have "y \<in> set (take j xs) \<or> y \<in> set (drop (Suc j) xs)" by auto
  then show ?thesis
  proof
    assume "y \<in> set (take j xs)"
    then obtain k where "k < length (take j xs)" "take j xs ! k = y"
      by (auto simp: in_set_conv_nth)
    with j have "k < length xs \<and> k \<noteq> j \<and> xs ! k = y" by auto
    then show ?thesis by blast
  next
    assume "y \<in> set (drop (Suc j) xs)"
    then obtain k where k: "k < length (drop (Suc j) xs)" "drop (Suc j) xs ! k = y"
      by (auto simp: in_set_conv_nth)
    with j have "Suc j + k < length xs \<and> Suc j + k \<noteq> j \<and> xs ! (Suc j + k) = y" by auto
    then show ?thesis by blast
  qed
qed

lemma bubbleUpIndex_final:
  assumes "i < length (pairs q)"
  shows "\<exists>j < length (pairs (bubbleUpIndex q i)).
           indexMap (bubbleUpIndex q i) (val (pairs q ! i)) = Some j \<and>
           pairs (bubbleUpIndex q i) ! j = pairs q ! i"
proof -
  let ?c = "pairs q ! i"
  let ?r = "bubbleUpLoop q ?c i"
  from bubbleUpLoop_lift [of "\<lambda>Q. True" q i ?c] assms
  have h: "snd ?r < length (pairs (fst ?r))" by simp
  have "indexMap (bubbleUpIndex q i) (val ?c) = Some (snd ?r)"
    by (simp add: bubbleUpIndex_placeCurrent)
  moreover from h have "pairs (bubbleUpIndex q i) ! snd ?r = ?c"
    by (simp add: bubbleUpIndex_placeCurrent)
  moreover from h have "snd ?r < length (pairs (bubbleUpIndex q i))"
    by (simp add: bubbleUpIndex_placeCurrent)
  ultimately show ?thesis by blast
qed

text \<open>
  C9. Insert has no error result. If \<open>v\<close> is already stored, at position \<open>k\<close>,
  Insert(v, p) makes the slice one longer, the index entry of \<open>v\<close> is the position \<open>j\<close>
  where the new pair \<open>(p, v)\<close> has come to rest after bubbling up, and the pair that was at
  \<open>k\<close> is still in the slice, at a position other than \<open>j\<close>: the index, which has one entry
  for \<open>v\<close>, does not lead to it.
\<close>

theorem C9_Insert_duplicate:
  assumes "k < length (pairs q)" and "val (pairs q ! k) = v"
  shows "length (pairs (Insert q v p)) = length (pairs q) + 1 \<and>
         mset (pairs (Insert q v p)) = add_mset \<lparr>priority = p, val = v\<rparr> (mset (pairs q)) \<and>
         (\<exists>j < length (pairs (Insert q v p)).
            indexMap (Insert q v p) v = Some j \<and>
            pairs (Insert q v p) ! j = \<lparr>priority = p, val = v\<rparr> \<and>
            (\<exists>k' < length (pairs (Insert q v p)). k' \<noteq> j \<and> pairs (Insert q v p) ! k' = pairs q ! k))"
proof -
  let ?new = "\<lparr>priority = p, val = v\<rparr>"
  let ?q2 = "q\<lparr>pairs := pairs q @ [?new], indexMap := (indexMap q)(v \<mapsto> length (pairs q))\<rparr>"
  let ?n = "length (pairs q)"
  have n: "?n < length (pairs ?q2)" and new: "pairs ?q2 ! ?n = ?new" by simp_all
  have len: "length (pairs (Insert q v p)) = ?n + 1"
    unfolding Insert_unfold using length_bubbleUpIndex [OF n] by simp
  have ms: "mset (pairs (Insert q v p)) = add_mset ?new (mset (pairs q))"
    unfolding Insert_unfold using mset_bubbleUpIndex [OF n] by simp
  from bubbleUpIndex_final [OF n] new
  obtain j where j: "j < length (pairs (Insert q v p))" "indexMap (Insert q v p) v = Some j"
      "pairs (Insert q v p) ! j = ?new"
    unfolding Insert_unfold by auto
  from assms(1) have "pairs q ! k \<in># mset (pairs q)" by simp
  with mset_nth_other [of "pairs (Insert q v p)" j "mset (pairs q)" "pairs q ! k"] ms j
  have "\<exists>k' < length (pairs (Insert q v p)). k' \<noteq> j \<and> pairs (Insert q v p) ! k' = pairs q ! k"
    by simp
  with len ms j show ?thesis by blast
qed

theorem C9_Insert_duplicate_witness:
  "(1::nat) < length (pairs scenario_inserted) \<and> val (pairs scenario_inserted ! 1) = ''B'' \<and>
   length (pairs (Insert scenario_inserted ''B'' 30)) = length (pairs scenario_inserted) + 1 \<and>
   (\<exists>j < length (pairs (Insert scenario_inserted ''B'' 30)).
      indexMap (Insert scenario_inserted ''B'' 30) ''B'' = Some j \<and>
      pairs (Insert scenario_inserted ''B'' 30) ! j = \<lparr>priority = 30, val = ''B''\<rparr> \<and>
      (\<exists>k' < length (pairs (Insert scenario_inserted ''B'' 30)).
          k' \<noteq> j \<and> pairs (Insert scenario_inserted ''B'' 30) ! k' = pairs scenario_inserted ! 1))"
proof -
  have a: "(1::nat) < length (pairs scenario_inserted)" by code_simp
  have b: "val (pairs scenario_inserted ! 1) = ''B''" by code_simp
  from C9_Insert_duplicate [OF a b, of 30] a b show ?thesis by blast
qed

section \<open>Termination of the two loops\<close>

text \<open>
  The loops of bubbleUpIndex and pushDownIndex are defined above as total functions, with
  the position as the measure: it decreases toward 0 in the first and increases toward the
  length of the slice in the second. The two functions below count the iterations of each
  loop, to state the bounds.
\<close>

function bubbleUpCount :: "('p::linorder, 'v) PriorityQueue \<Rightarrow> ('p, 'v) Pair \<Rightarrow> nat \<Rightarrow> nat" where
  "bubbleUpCount q current index =
     (if index > 0 then
        (let parentIndex = getParentIndex q index in
         if priority (pairs q ! parentIndex) < priority current then
           (let q1 = q\<lparr>pairs := (pairs q)[index := pairs q ! parentIndex]\<rparr>;
                q2 = q1\<lparr>indexMap := (indexMap q1)(val (pairs q1 ! index) \<mapsto> index)\<rparr>
            in Suc (bubbleUpCount q2 current parentIndex))
         else 0)
      else 0)"
  by pat_completeness auto
termination
  by (relation "measure (\<lambda>(q, current, index). index)") (auto simp: getParentIndex_less)

declare bubbleUpCount.simps [simp del]

function pushDownCount :: "('p::linorder, 'v) PriorityQueue \<Rightarrow> nat \<Rightarrow> nat" where
  "pushDownCount q currentIndex =
     (if int currentIndex < firstLeafIndex q then
        (case highestPriorityChild q currentIndex of
           None \<Rightarrow> 0
         | Some (best, childIndex) \<Rightarrow>
             if priority (pairs q ! childIndex) > priority (pairs q ! currentIndex)
             then Suc (pushDownCount (swapDown q currentIndex childIndex) childIndex)
             else 0)
      else 0)"
  by pat_completeness auto
termination
proof (relation "measure (\<lambda>(q, currentIndex). length (pairs q) - currentIndex)")
  show "wf (measure (\<lambda>(q :: ('p::linorder, 'v) PriorityQueue, currentIndex). length (pairs q) - currentIndex))"
    by simp
next
  fix q :: "('p::linorder, 'v) PriorityQueue" and currentIndex x2 best childIndex
  assume a: "int currentIndex < firstLeafIndex q"
    and b: "highestPriorityChild q currentIndex = Some x2"
    and c: "(best, childIndex) = x2"
  from b c have h: "highestPriorityChild q currentIndex = Some (best, childIndex)" by simp
  from pushDown_child_greater [OF a h] highestPriorityChild_range [OF h]
  show "((swapDown q currentIndex childIndex, childIndex), q, currentIndex)
          \<in> measure (\<lambda>(q, currentIndex). length (pairs q) - currentIndex)"
    by (simp add: length_swapDown) linarith
qed

declare pushDownCount.simps [simp del]

lemma bubbleUpCount_le: "bubbleUpCount q current index \<le> index"
proof (induction q current index rule: bubbleUpCount.induct)
  case (1 q current index)
  note unfold = bubbleUpCount.simps [of q current index]
  let ?p = "getParentIndex q index"
  show ?case
  proof (cases "index > 0 \<and> priority (pairs q ! ?p) < priority current")
    case False
    then have "bubbleUpCount q current index = 0" by (auto simp: unfold Let_def)
    then show ?thesis by simp
  next
    case True
    let ?q2 = "q\<lparr>pairs := (pairs q)[index := pairs q ! ?p],
                  indexMap := (indexMap q)(val ((pairs q)[index := pairs q ! ?p] ! index) \<mapsto> index)\<rparr>"
    from True have c1: "0 < index" and c2: "priority (pairs q ! ?p) < priority current" by simp_all
    from c1 have lt: "?p < index" by (rule getParentIndex_less)
    from True lt have eq: "bubbleUpCount q current index = Suc (bubbleUpCount ?q2 current ?p)"
      by (simp add: unfold Let_def)
    have "bubbleUpCount ?q2 current ?p \<le> ?p"
      using "1.IH" [OF c1 refl c2 refl refl] lt by (simp add: Let_def)
    with eq lt show ?thesis by simp
  qed
qed

lemma firstLeafIndex_swapDown: "firstLeafIndex (swapDown q c ri) = firstLeafIndex q"
  by (simp add: firstLeafIndex_def)

lemma pushDownCount_le: "int (pushDownCount q c) \<le> max 0 (firstLeafIndex q - int c)"
proof (induction q c rule: pushDownCount.induct)
  case (1 q currentIndex)
  note unfold = pushDownCount.simps [of q currentIndex]
  show ?case
  proof (cases "int currentIndex < firstLeafIndex q")
    case False
    then show ?thesis by (simp add: unfold)
  next
    case guard: True
    show ?thesis
    proof (cases "highestPriorityChild q currentIndex")
      case None
      with guard show ?thesis by (simp add: unfold)
    next
      case (Some bc)
      obtain best childIndex where "bc = (best, childIndex)" by (cases bc)
      with Some have h: "highestPriorityChild q currentIndex = Some (best, childIndex)" by simp
      from pushDown_child_greater [OF guard h] have gt: "currentIndex < childIndex" .
      show ?thesis
      proof (cases "priority (pairs q ! childIndex) > priority (pairs q ! currentIndex)")
        case False
        with guard h show ?thesis by (simp add: unfold)
      next
        case True
        with guard h have eq: "pushDownCount q currentIndex =
            Suc (pushDownCount (swapDown q currentIndex childIndex) childIndex)"
          by (simp add: unfold)
        from "1.IH" [OF guard h refl True]
        have "int (pushDownCount (swapDown q currentIndex childIndex) childIndex)
                \<le> max 0 (firstLeafIndex q - int childIndex)"
          by (simp add: firstLeafIndex_swapDown)
        with eq gt guard show ?thesis by simp
      qed
    qed
  qed
qed

text \<open>
  C10. Each iteration of the loop of bubbleUpIndex replaces a position \<open>index > 0\<close> by its
  parent, which is strictly smaller, so the loop runs at most \<open>index\<close> times. Each iteration
  of the loop of pushDownIndex starts from a position below firstLeafIndex and replaces it
  by a child position, which is strictly larger and inside the slice, and the swap changes
  neither the length nor firstLeafIndex; so the loop runs at most
  \<open>firstLeafIndex - currentIndex\<close> times. Insert, Remove, Update, Top and Peek call these
  loops (and the scan of the children, bounded by its end index) a fixed number of times,
  and are total functions.
\<close>

theorem C10_termination:
  "(0 < index \<longrightarrow> getParentIndex q index < index) \<and>
   bubbleUpCount q current index \<le> index \<and>
   (int cur < firstLeafIndex q \<and> highestPriorityChild q cur = Some (r, c) \<longrightarrow>
      cur < c \<and> c < length (pairs q) \<and>
      length (pairs (swapDown q cur c)) = length (pairs q) \<and>
      firstLeafIndex (swapDown q cur c) = firstLeafIndex q) \<and>
   int (pushDownCount q cur) \<le> max 0 (firstLeafIndex q - int cur)"
proof -
  have a: "0 < index \<longrightarrow> getParentIndex q index < index"
    by (simp add: getParentIndex_less)
  have b: "int cur < firstLeafIndex q \<and> highestPriorityChild q cur = Some (r, c) \<longrightarrow>
      cur < c \<and> c < length (pairs q) \<and>
      length (pairs (swapDown q cur c)) = length (pairs q) \<and>
      firstLeafIndex (swapDown q cur c) = firstLeafIndex q"
  proof
    assume h: "int cur < firstLeafIndex q \<and> highestPriorityChild q cur = Some (r, c)"
    then have g: "int cur < firstLeafIndex q" and hc: "highestPriorityChild q cur = Some (r, c)"
      by simp_all
    from pushDown_child_greater [OF g hc] highestPriorityChild_range [OF hc]
    show "cur < c \<and> c < length (pairs q) \<and>
      length (pairs (swapDown q cur c)) = length (pairs q) \<and>
      firstLeafIndex (swapDown q cur c) = firstLeafIndex q"
      by (simp add: firstLeafIndex_swapDown)
  qed
  from a b bubbleUpCount_le [of q current index] pushDownCount_le [of q cur]
  show ?thesis by blast
qed

theorem C10_termination_witness:
  "(0::nat) < 2 \<and> getParentIndex scenario_inserted 2 < 2 \<and>
   int 0 < firstLeafIndex scenario_inserted \<and>
   highestPriorityChild scenario_inserted 0 = Some (\<lparr>priority = 8, val = ''C''\<rparr>, 2) \<and>
   (0::nat) < 2 \<and> 2 < length (pairs scenario_inserted) \<and>
   firstLeafIndex (swapDown scenario_inserted 0 2) = firstLeafIndex scenario_inserted \<and>
   int (pushDownCount scenario_inserted 0) \<le> max 0 (firstLeafIndex scenario_inserted - int 0)"
proof -
  have g: "int 0 < firstLeafIndex scenario_inserted" by code_simp
  have h: "highestPriorityChild scenario_inserted 0 = Some (\<lparr>priority = 8, val = ''C''\<rparr>, 2)"
    by code_simp
  from C10_termination [of 2 scenario_inserted "\<lparr>priority = 8, val = ''C''\<rparr>" 0
      "\<lparr>priority = 8, val = ''C''\<rparr>" 2] g h
  show ?thesis by simp
qed

section \<open>What Remove does\<close>

lemma moveLast_eq:
  assumes "Suc i < length (pairs q)"
  shows "moveLast q i =
     q\<lparr>pairs := (butlast (pairs q))[i := last (pairs q)],
       indexMap := ((indexMap q)(val (last (pairs q)) \<mapsto> i))(val (pairs q ! i) := None)\<rparr>"
proof -
  from assms have "pairs q \<noteq> []" by auto
  then have "pairs q ! (length (pairs q) - 1) = last (pairs q)"
    by (simp add: last_conv_nth)
  then show ?thesis
    by (simp add: moveLast_def butlast_conv_take take_update_swap)
qed

definition scenario_disordered :: "(int, string) PriorityQueue" where
  "scenario_disordered = Insert scenario_updated ''D'' 15"

text \<open>
  C4. Let \<open>v\<close> be in the index, at position \<open>i\<close> of the slice. If \<open>i\<close> is the last position,
  Remove cuts the slice by one and deletes the index entry of \<open>v\<close>, and does nothing else.
  Otherwise the last pair is written over position \<open>i\<close>, its index entry is set to \<open>i\<close>,
  the slice is cut by one and the entry of the removed value is deleted, so that the slice
  loses exactly the pair that was at \<open>i\<close>; then
  \<^item> if the priority of the moved pair is strictly lower than the removed priority, it is
    bubbled up from \<open>i\<close>: it ends at a position \<open>h\<close> at or above \<open>i\<close>, where the index finds
    it, which is the root or has a parent that is not strictly lower; and if it has moved,
    position \<open>i\<close> holds the pair of the parent of \<open>i\<close>, which was strictly lower;
  \<^item> if it is strictly higher, it is pushed down from \<open>i\<close>: it ends at a position \<open>f\<close> at
    or below \<open>i\<close> none of whose children is strictly higher; and if it has moved, position
    \<open>i\<close> holds a strictly higher pair;
  \<^item> if the priorities are equal, it stays at \<open>i\<close>.
\<close>

theorem C4_Remove:
  assumes "indexMap q v = Some i" and "i < length (pairs q)"
  shows "(i = length (pairs q) - 1 \<longrightarrow>
            Remove q v = (None, q\<lparr>pairs := butlast (pairs q), indexMap := (indexMap q)(v := None)\<rparr>)) \<and>
         (i \<noteq> length (pairs q) - 1 \<longrightarrow>
            Remove q v =
              (let moved = q\<lparr>pairs := (butlast (pairs q))[i := last (pairs q)],
                             indexMap := ((indexMap q)(val (last (pairs q)) \<mapsto> i))
                                           (val (pairs q ! i) := None)\<rparr>
               in (None,
                   if priority (last (pairs q)) < priority (pairs q ! i) then bubbleUpIndex moved i
                   else if priority (last (pairs q)) > priority (pairs q ! i) then pushDownIndex moved i
                   else moved)) \<and>
            length (pairs (snd (Remove q v))) = length (pairs q) - 1 \<and>
            add_mset (pairs q ! i) (mset (pairs (snd (Remove q v)))) = mset (pairs q) \<and>
            (priority (last (pairs q)) < priority (pairs q ! i) \<longrightarrow>
               (\<exists>h \<le> i.
                  pairs (snd (Remove q v)) ! h = last (pairs q) \<and>
                  indexMap (snd (Remove q v)) (val (last (pairs q))) = Some h \<and>
                  (h = 0 \<or> \<not> priority (pairs (snd (Remove q v)) ! getParentIndex q h)
                               < priority (last (pairs q))) \<and>
                  (h < i \<longrightarrow> pairs (snd (Remove q v)) ! i = pairs q ! getParentIndex q i \<and>
                             priority (pairs q ! getParentIndex q i) < priority (last (pairs q))))) \<and>
            (priority (last (pairs q)) > priority (pairs q ! i) \<and> 0 < sizeD q \<longrightarrow>
               (\<exists>f. i \<le> f \<and> f < length (pairs q) - 1 \<and>
                  pairs (snd (Remove q v)) ! f = last (pairs q) \<and>
                  (\<forall>j. f * sizeD q + 1 \<le> j \<and> j \<le> f * sizeD q + sizeD q \<and> j < length (pairs q) - 1
                       \<longrightarrow> priority (pairs (snd (Remove q v)) ! j) \<le> priority (last (pairs q))) \<and>
                  (i < f \<longrightarrow> priority (last (pairs q)) < priority (pairs (snd (Remove q v)) ! i)))) \<and>
            (priority (last (pairs q)) = priority (pairs q ! i) \<longrightarrow>
               pairs (snd (Remove q v)) = (butlast (pairs q))[i := last (pairs q)]))"
proof (cases "i = length (pairs q) - 1")
  case True
  with assms(2) have l: "Suc i = length (pairs q)" by simp
  then have "i = length (pairs q) - 1" by simp
  then have "take i (pairs q) = butlast (pairs q)" by (simp only: butlast_conv_take)
  with True show ?thesis by (simp add: Remove_last [OF assms(1) l])
next
  case False
  with assms(2) have l: "Suc i < length (pairs q)" by simp
  let ?last = "last (pairs q)"
  let ?R = "snd (Remove q v)"
  let ?m = "moveLast q i"
  from l have lastn: "pairs q ! (length (pairs q) - 1) = ?last"
    by (cases "pairs q") (simp_all add: last_conv_nth)
  have mv: "?m = q\<lparr>pairs := (butlast (pairs q))[i := ?last],
                    indexMap := ((indexMap q)(val ?last \<mapsto> i))(val (pairs q ! i) := None)\<rparr>"
    by (rule moveLast_eq [OF l])
  have mps: "pairs ?m = (butlast (pairs q))[i := ?last]" by (simp add: mv)
  from l have il: "i < length (pairs ?m)" by simp
  from l lastn have mi: "pairs ?m ! i = ?last" by (simp add: moveLast_nth)
  have sd: "sizeD ?m = sizeD q" by simp
  have lm: "length (pairs ?m) = length (pairs q) - 1" by simp
  have R: "?R = (if priority ?last < priority (pairs q ! i) then bubbleUpIndex ?m i
                 else if priority ?last > priority (pairs q ! i) then pushDownIndex ?m i
                 else ?m)"
    using lastn by (simp add: Remove_inner [OF assms(1) l])
  have a: "Remove q v =
              (let moved = q\<lparr>pairs := (butlast (pairs q))[i := ?last],
                             indexMap := ((indexMap q)(val ?last \<mapsto> i))
                                           (val (pairs q ! i) := None)\<rparr>
               in (None,
                   if priority ?last < priority (pairs q ! i) then bubbleUpIndex moved i
                   else if priority ?last > priority (pairs q ! i) then pushDownIndex moved i
                   else moved))"
    using lastn by (simp add: Remove_inner [OF assms(1) l] mv [symmetric] Let_def)
  have b: "length (pairs ?R) = length (pairs q) - 1"
    using il by (simp add: R length_bubbleUpIndex length_pushDownIndex)
  have "mset (pairs ?R) = mset (pairs ?m)"
    using il by (simp add: R mset_bubbleUpIndex mset_pushDownIndex)
  then have c: "add_mset (pairs q ! i) (mset (pairs ?R)) = mset (pairs q)"
    by (simp only: mps mset_move_last [OF l])
  have d: "priority ?last < priority (pairs q ! i) \<longrightarrow>
               (\<exists>h \<le> i.
                  pairs ?R ! h = ?last \<and>
                  indexMap ?R (val ?last) = Some h \<and>
                  (h = 0 \<or> \<not> priority (pairs ?R ! getParentIndex q h) < priority ?last) \<and>
                  (h < i \<longrightarrow> pairs ?R ! i = pairs q ! getParentIndex q i \<and>
                             priority (pairs q ! getParentIndex q i) < priority ?last))"
  proof
    assume lo: "priority ?last < priority (pairs q ! i)"
    then have Rb: "?R = bubbleUpIndex ?m i" by (simp add: R)
    have gp: "getParentIndex ?m k = getParentIndex q k" for k
      by (rule getParentIndex_sizeD) simp
    from bubbleUpIndex_spec [OF il]
    obtain h where h: "h \<le> i" "pairs (bubbleUpIndex ?m i) ! h = pairs ?m ! i"
        "indexMap (bubbleUpIndex ?m i) (val (pairs ?m ! i)) = Some h"
        "h = 0 \<or> \<not> priority (pairs (bubbleUpIndex ?m i) ! getParentIndex ?m h) < priority (pairs ?m ! i)"
        "h < i \<longrightarrow> pairs (bubbleUpIndex ?m i) ! i = pairs ?m ! getParentIndex ?m i \<and>
                   priority (pairs ?m ! getParentIndex ?m i) < priority (pairs ?m ! i)"
      by blast
    have par: "pairs ?m ! getParentIndex q i = pairs q ! getParentIndex q i" if "h < i"
    proof -
      from that have "0 < i" by simp
      then have "getParentIndex q i < i" by (rule getParentIndex_less)
      with l show ?thesis by (simp add: moveLast_nth)
    qed
    from h(2) have h2: "pairs ?R ! h = ?last" by (simp only: Rb mi)
    from h(3) have h3: "indexMap ?R (val ?last) = Some h" by (simp only: Rb mi)
    from h(4) have h4: "h = 0 \<or> \<not> priority (pairs ?R ! getParentIndex q h) < priority ?last"
      by (simp only: Rb mi gp)
    from h(5) par have h5: "h < i \<longrightarrow> pairs ?R ! i = pairs q ! getParentIndex q i \<and>
                             priority (pairs q ! getParentIndex q i) < priority ?last"
      by (simp add: Rb mi gp)
    from h(1) h2 h3 h4 h5 show "\<exists>h \<le> i.
                  pairs ?R ! h = ?last \<and>
                  indexMap ?R (val ?last) = Some h \<and>
                  (h = 0 \<or> \<not> priority (pairs ?R ! getParentIndex q h) < priority ?last) \<and>
                  (h < i \<longrightarrow> pairs ?R ! i = pairs q ! getParentIndex q i \<and>
                             priority (pairs q ! getParentIndex q i) < priority ?last)"
      by (intro exI [of _ h]) simp
  qed
  have e: "priority ?last > priority (pairs q ! i) \<and> 0 < sizeD q \<longrightarrow>
               (\<exists>f. i \<le> f \<and> f < length (pairs q) - 1 \<and>
                  pairs ?R ! f = ?last \<and>
                  (\<forall>j. f * sizeD q + 1 \<le> j \<and> j \<le> f * sizeD q + sizeD q \<and> j < length (pairs q) - 1
                       \<longrightarrow> priority (pairs ?R ! j) \<le> priority ?last) \<and>
                  (i < f \<longrightarrow> priority ?last < priority (pairs ?R ! i)))"
  proof
    assume hi: "priority ?last > priority (pairs q ! i) \<and> 0 < sizeD q"
    then have Rp: "?R = pushDownIndex ?m i" by (auto simp: R)
    from hi have dm: "0 < sizeD ?m" by simp
    from pushDownIndex_spec [OF dm il]
    obtain f where f: "i \<le> f" "f < length (pairs ?m)"
        "pairs (pushDownIndex ?m i) ! f = pairs ?m ! i"
        "\<forall>j. f * sizeD ?m + 1 \<le> j \<and> j \<le> f * sizeD ?m + sizeD ?m \<and> j < length (pairs ?m)
              \<longrightarrow> priority (pairs (pushDownIndex ?m i) ! j) \<le> priority (pairs ?m ! i)"
        "i < f \<longrightarrow> (\<exists>r ri. highestPriorityChild ?m i = Some (r, ri) \<and>
                          priority (pairs ?m ! i) < priority (pairs ?m ! ri) \<and>
                          pairs (pushDownIndex ?m i) ! i = pairs ?m ! ri)"
      by blast
    from f(2) have f2: "f < length (pairs q) - 1" unfolding lm .
    from f(3) have f3: "pairs ?R ! f = ?last" by (simp only: Rp mi)
    from f(4) have f4: "\<forall>j. f * sizeD q + 1 \<le> j \<and> j \<le> f * sizeD q + sizeD q \<and> j < length (pairs q) - 1
                       \<longrightarrow> priority (pairs ?R ! j) \<le> priority ?last"
      unfolding Rp mi sd lm .
    from f(5) have f5: "i < f \<longrightarrow> priority ?last < priority (pairs ?R ! i)"
      unfolding Rp mi by auto
    from f(1) f2 f3 f4 f5 show "\<exists>f. i \<le> f \<and> f < length (pairs q) - 1 \<and>
                  pairs ?R ! f = ?last \<and>
                  (\<forall>j. f * sizeD q + 1 \<le> j \<and> j \<le> f * sizeD q + sizeD q \<and> j < length (pairs q) - 1
                       \<longrightarrow> priority (pairs ?R ! j) \<le> priority ?last) \<and>
                  (i < f \<longrightarrow> priority ?last < priority (pairs ?R ! i))"
      by (intro exI [of _ f]) simp
  qed
  have g: "priority ?last = priority (pairs q ! i) \<longrightarrow>
               pairs ?R = (butlast (pairs q))[i := ?last]"
    by (simp add: R mps)
  from False a b c d e g show ?thesis by (intro conjI impI) blast+
qed

theorem C4_Remove_witness:
  "pairs scenario_disordered =
     [\<lparr>priority = 10, val = ''A''\<rparr>, \<lparr>priority = 20, val = ''B''\<rparr>,
      \<lparr>priority = 8, val = ''C''\<rparr>, \<lparr>priority = 15, val = ''D''\<rparr>] \<and>
   indexMap scenario_disordered ''B'' = Some 1 \<and>
   1 < length (pairs scenario_disordered) \<and>
   1 \<noteq> length (pairs scenario_disordered) - 1 \<and>
   priority (last (pairs scenario_disordered)) < priority (pairs scenario_disordered ! 1) \<and>
   (\<exists>h \<le> 1.
      pairs (snd (Remove scenario_disordered ''B'')) ! h = last (pairs scenario_disordered) \<and>
      indexMap (snd (Remove scenario_disordered ''B'')) (val (last (pairs scenario_disordered))) = Some h \<and>
      (h = 0 \<or> \<not> priority (pairs (snd (Remove scenario_disordered ''B'')) !
                               getParentIndex scenario_disordered h)
                   < priority (last (pairs scenario_disordered)))) \<and>
   pairs (snd (Remove scenario_disordered ''B'')) =
     [\<lparr>priority = 15, val = ''D''\<rparr>, \<lparr>priority = 10, val = ''A''\<rparr>, \<lparr>priority = 8, val = ''C''\<rparr>] \<and>
   indexMap scenario_disordered ''A'' = Some 0 \<and>
   priority (last (pairs scenario_disordered)) > priority (pairs scenario_disordered ! 0) \<and>
   0 < sizeD scenario_disordered \<and>
   (\<exists>f. 0 \<le> f \<and> f < length (pairs scenario_disordered) - 1 \<and>
      pairs (snd (Remove scenario_disordered ''A'')) ! f = last (pairs scenario_disordered)) \<and>
   pairs (snd (Remove scenario_disordered ''A'')) =
     [\<lparr>priority = 20, val = ''B''\<rparr>, \<lparr>priority = 15, val = ''D''\<rparr>, \<lparr>priority = 8, val = ''C''\<rparr>]"
proof -
  have ps: "pairs scenario_disordered =
     [\<lparr>priority = 10, val = ''A''\<rparr>, \<lparr>priority = 20, val = ''B''\<rparr>,
      \<lparr>priority = 8, val = ''C''\<rparr>, \<lparr>priority = 15, val = ''D''\<rparr>]"
    by code_simp
  have b1: "indexMap scenario_disordered ''B'' = Some 1" by code_simp
  have b2: "1 < length (pairs scenario_disordered)" by code_simp
  have b3: "1 \<noteq> length (pairs scenario_disordered) - 1" by code_simp
  have b4: "priority (last (pairs scenario_disordered)) < priority (pairs scenario_disordered ! 1)"
    by code_simp
  have b5: "pairs (snd (Remove scenario_disordered ''B'')) =
     [\<lparr>priority = 15, val = ''D''\<rparr>, \<lparr>priority = 10, val = ''A''\<rparr>, \<lparr>priority = 8, val = ''C''\<rparr>]"
    by code_simp
  have a1: "indexMap scenario_disordered ''A'' = Some 0" by code_simp
  have a2: "0 < length (pairs scenario_disordered)" by code_simp
  have a3: "0 \<noteq> length (pairs scenario_disordered) - 1" by code_simp
  have a4: "priority (last (pairs scenario_disordered)) > priority (pairs scenario_disordered ! 0)"
    by code_simp
  have a5: "0 < sizeD scenario_disordered" by code_simp
  have a6: "pairs (snd (Remove scenario_disordered ''A'')) =
     [\<lparr>priority = 20, val = ''B''\<rparr>, \<lparr>priority = 15, val = ''D''\<rparr>, \<lparr>priority = 8, val = ''C''\<rparr>]"
    by code_simp
  from C4_Remove [OF b1 b2] b3 b4
  have up: "\<exists>h \<le> 1.
      pairs (snd (Remove scenario_disordered ''B'')) ! h = last (pairs scenario_disordered) \<and>
      indexMap (snd (Remove scenario_disordered ''B'')) (val (last (pairs scenario_disordered))) = Some h \<and>
      (h = 0 \<or> \<not> priority (pairs (snd (Remove scenario_disordered ''B'')) !
                               getParentIndex scenario_disordered h)
                   < priority (last (pairs scenario_disordered)))"
    by blast
  from C4_Remove [OF a1 a2] a3 a4 a5
  have down: "\<exists>f. 0 \<le> f \<and> f < length (pairs scenario_disordered) - 1 \<and>
      pairs (snd (Remove scenario_disordered ''A'')) ! f = last (pairs scenario_disordered)"
    by blast
  from ps b1 b2 b3 b4 up b5 a1 a4 a5 down a6 show ?thesis by (intro conjI)
qed

end
